theory Spec2Isabelle
  imports Main "HOL-Library.Char_ord" "HOL-Library.List_Lexorder" "HOL-Library.Sublist"
begin

section \<open>The configuration model of \<^verbatim>\<open>source/main/zettlr-config.js\<close>\<close>

text \<open>
  The class \<^verbatim>\<open>ZettlrConfig\<close> keeps one settings tree (\<^verbatim>\<open>this.config\<close>), reads and
  writes it as JSON, and offers dotted-path access to it. The theory embeds its methods as
  HOL functions over the data the methods see: the values JSON can hold, the object that
  is the configuration, the counter of emitted \<^verbatim>\<open>'update'\<close> events, the search path of
  the process and the state of the backing file.
\<close>

subsection \<open>Values\<close>

text \<open>
  The exceptions the methods can run into: a property access on \<^verbatim>\<open>null\<close> or
  \<^verbatim>\<open>undefined\<close> and an assignment to a read-only property (the class body is strict
  code) are \<^verbatim>\<open>TypeError\<close>s, an invalid array length is a \<^verbatim>\<open>RangeError\<close>.
\<close>

datatype error = TypeError | RangeError

text \<open>
  A value of the tree. An object is the list of its own properties in enumeration order
  (\<^verbatim>\<open>for ... in\<close> visits them in this order). Numbers are integers: no method computes
  with a configuration number, so fractions are left out. \<open>JHole\<close> is the empty slot of
  an array that an assignment to \<^verbatim>\<open>length\<close> has extended: it is not an own property
  and reads as \<^verbatim>\<open>undefined\<close>.
\<close>

datatype json =
    JNull
  | JBool bool
  | JNum int
  | JStr string
  | JArr "json list"
  | JObj "(string \<times> json) list"
  | JHole

type_synonym props = "(string \<times> json) list"

definition nullish :: "json \<Rightarrow> bool" where
  "nullish v = (v = JNull \<or> v = JHole)"

definition digit :: "char \<Rightarrow> bool" where
  "digit c = (CHR ''0'' \<le> c \<and> c \<le> CHR ''9'')"

definition digits_val :: "string \<Rightarrow> nat" where
  "digits_val ds = foldl (\<lambda>n c. 10 * n + (of_char c - 48)) 0 ds"

text \<open>
  The index a property name stands for: a canonical decimal numeral (\<^verbatim>\<open>"0"\<close>,
  \<^verbatim>\<open>"17"\<close>, but not \<^verbatim>\<open>"01"\<close>).
\<close>

definition array_index :: "string \<Rightarrow> nat option" where
  "array_index k =
     (if k \<noteq> [] \<and> list_all digit k \<and> (k = ''0'' \<or> hd k \<noteq> CHR ''0'')
      then Some (digits_val k) else None)"

text \<open>
  \<open>own_prop v k\<close> is the own property \<open>k\<close> of a value that is neither \<^verbatim>\<open>null\<close> nor
  \<^verbatim>\<open>undefined\<close>: \<open>None\<close> when \<^verbatim>\<open>v.hasOwnProperty(k)\<close> is false, \<open>Some (v[k])\<close> when
  it is true. Arrays and strings own their indices and \<^verbatim>\<open>length\<close>; numbers and
  booleans own nothing.
\<close>

fun own_prop :: "json \<Rightarrow> string \<Rightarrow> json option" where
  "own_prop (JObj ps) k = map_of ps k"
| "own_prop (JArr xs) k =
     (if k = ''length'' then Some (JNum (int (length xs)))
      else (case array_index k of
          None \<Rightarrow> None
        | Some i \<Rightarrow> if i < length xs \<and> xs ! i \<noteq> JHole then Some (xs ! i) else None))"
| "own_prop (JStr s) k =
     (if k = ''length'' then Some (JNum (int (length s)))
      else (case array_index k of
          None \<Rightarrow> None
        | Some i \<Rightarrow> if i < length s then Some (JStr [s ! i]) else None))"
| "own_prop v k = None"

text \<open>
  \<^verbatim>\<open>v.hasOwnProperty(k)\<close> can be evaluated when the method is there to call: \<open>v\<close>
  is neither \<^verbatim>\<open>null\<close> nor \<^verbatim>\<open>undefined\<close>, and no own property of \<open>v\<close> with the
  name \<^verbatim>\<open>hasOwnProperty\<close> stands in front of the inherited method (no value of the
  tree is a function). Otherwise the call throws a \<^verbatim>\<open>TypeError\<close>.
\<close>

definition has_method :: "json \<Rightarrow> bool" where
  "has_method v = (\<not> nullish v \<and> own_prop v ''hasOwnProperty'' = None)"

text \<open>\<^verbatim>\<open>obj[k] = v\<close> on an object: an own property keeps its place, a new one comes last.\<close>

definition assign_key :: "props \<Rightarrow> string \<Rightarrow> json \<Rightarrow> props" where
  "assign_key ps k v =
     (if map_of ps k \<noteq> None
      then map (\<lambda>(k', v'). if k' = k then (k', v) else (k', v')) ps
      else ps @ [(k, v)])"

subsection \<open>Strings\<close>

text \<open>\<^verbatim>\<open>s.indexOf(c)\<close> for a single character: the first position, or \<open>-1\<close>.\<close>

fun indexOf :: "string \<Rightarrow> char \<Rightarrow> int" where
  "indexOf [] c = - 1"
| "indexOf (x # xs) c =
     (if x = c then 0 else (let i = indexOf xs c in if i < 0 then - 1 else i + 1))"

text \<open>\<^verbatim>\<open>s.lastIndexOf(c)\<close>: the last position, or \<open>-1\<close>.\<close>

definition lastIndexOf :: "string \<Rightarrow> char \<Rightarrow> int" where
  "lastIndexOf s c =
     (let i = indexOf (rev s) c in if i < 0 then - 1 else int (length s) - 1 - i)"

text \<open>\<^verbatim>\<open>s.split(d)\<close>: the pieces between the separators; never empty.\<close>

fun split_str :: "char \<Rightarrow> string \<Rightarrow> string list" where
  "split_str d [] = [[]]"
| "split_str d (c # cs) =
     (if c = d then [] # split_str d cs
      else (case split_str d cs of
          [] \<Rightarrow> [[c]]
        | w # ws \<Rightarrow> (c # w) # ws))"

text \<open>\<^verbatim>\<open>xs.join(d)\<close>.\<close>

fun join_str :: "char \<Rightarrow> string list \<Rightarrow> string" where
  "join_str d [] = []"
| "join_str d [x] = x"
| "join_str d (x # y # ys) = x @ d # join_str d (y # ys)"

text \<open>\<^verbatim>\<open>s.indexOf(t) !== -1\<close> for a string \<open>t\<close>: \<open>t\<close> occurs somewhere in \<open>s\<close>.\<close>

fun contains :: "string \<Rightarrow> string \<Rightarrow> bool" where
  "contains [] t = (t = [])"
| "contains (c # cs) t = (prefix t (c # cs) \<or> contains cs t)"

subsection \<open>The state of a \<^verbatim>\<open>ZettlrConfig\<close>\<close>

text \<open>
  \<open>config\<close> is the object behind \<^verbatim>\<open>this.config\<close>. \<^verbatim>\<open>load()\<close> starts with
  \<^verbatim>\<open>this.config = this.cfgtpl\<close>, so from then on the template and the live tree are one
  and the same object, which every method mutates in place; the model keeps this one
  object. \<open>emitted\<close> counts the calls of \<^verbatim>\<open>this.emit('update')\<close>. \<open>PATH\<close> is
  \<^verbatim>\<open>process.env.PATH\<close>. \<open>config_dir\<close> and \<open>dict_dir\<close> say whether the user data
  directory and its \<^verbatim>\<open>dict\<close> directory exist, \<open>config_file\<close> is the text of
  \<^verbatim>\<open>config.json\<close> (\<open>None\<close>: there is no such file). Creating a directory and writing
  the file are taken to succeed.
\<close>

record state =
  config :: props
  emitted :: nat
  PATH :: string
  config_dir :: bool
  config_file :: "string option"
  dict_dir :: bool

subsection \<open>\<^verbatim>\<open>update\<close>\<close>

text \<open>
  \<^verbatim>\<open>update (newcfg, oldcfg = this.config)\<close>. \<open>oldcfg\<close> is an object in every call the
  class makes: the configuration itself, or a value the loop has tested to be a non-null,
  non-array object. \<open>update_loop\<close> is the \<^verbatim>\<open>for (var prop in oldcfg)\<close> loop over the
  properties still to visit; \<open>update\<close> is the whole body, which ends with
  \<^verbatim>\<open>this.emit('update')\<close>. Both return the object as mutated, the number of events
  emitted, and the exception that ended the run if there was one:
  \<^verbatim>\<open>newcfg.hasOwnProperty(prop)\<close> throws when \<open>newcfg\<close> is \<^verbatim>\<open>null\<close> (or hides
  the method), and what was assigned before stays assigned.
\<close>

function update :: "json \<Rightarrow> props \<Rightarrow> props \<times> nat \<times> error option"
  and update_loop :: "json \<Rightarrow> props \<Rightarrow> props \<times> nat \<times> error option"
where
  "update newcfg oldcfg =
     (case update_loop newcfg oldcfg of
        (ps, n, None) \<Rightarrow> (ps, Suc n, None)
      | (ps, n, Some e) \<Rightarrow> (ps, n, Some e))"
| "update_loop newcfg [] = ([], 0, None)"
| "update_loop newcfg ((prop, v) # rest) =
     (if has_method newcfg
      then (case own_prop newcfg prop of
          None \<Rightarrow>
            (case update_loop newcfg rest of
               (rest', n, e) \<Rightarrow> ((prop, v) # rest', n, e))
        | Some nv \<Rightarrow>
            (case v of
               JObj ps \<Rightarrow>
                 (case update nv ps of
                    (ps', n1, Some e) \<Rightarrow> ((prop, JObj ps') # rest, n1, Some e)
                  | (ps', n1, None) \<Rightarrow>
                      (case update_loop newcfg rest of
                         (rest', n2, e) \<Rightarrow> ((prop, JObj ps') # rest', n1 + n2, e)))
             | _ \<Rightarrow>
                 (case update_loop newcfg rest of
                    (rest', n, e) \<Rightarrow> ((prop, nv) # rest', n, e))))
      else ((prop, v) # rest, 0, Some TypeError))"
  by pat_completeness auto
termination
  by (relation "measure (\<lambda>x. case x of
        Inl (n, old) \<Rightarrow> 2 * size_list (size_prod (\<lambda>_. 0) size) old + 1
      | Inr (n, old) \<Rightarrow> 2 * size_list (size_prod (\<lambda>_. 0) size) old)") auto

text \<open>The call \<^verbatim>\<open>this.update(newcfg)\<close>, with \<open>oldcfg\<close> the configuration.\<close>

definition update_config :: "json \<Rightarrow> state \<Rightarrow> error option \<times> state" where
  "update_config newcfg s =
     (case update newcfg (config s) of
        (ps, n, e) \<Rightarrow> (e, s\<lparr>config := ps, emitted := emitted s + n\<rparr>))"

subsection \<open>\<^verbatim>\<open>load\<close> and \<^verbatim>\<open>save\<close>\<close>

text \<open>
  \<^verbatim>\<open>JSON.parse\<close> and \<^verbatim>\<open>JSON.stringify\<close> are the host's: \<open>parse\<close> gives \<open>None\<close> where
  \<^verbatim>\<open>JSON.parse\<close> throws a \<^verbatim>\<open>SyntaxError\<close>. In \<^verbatim>\<open>load\<close> one \<^verbatim>\<open>try\<close> block holds the
  existence test of the file, the read and the parse, and its \<^verbatim>\<open>catch\<close> writes the
  template and returns; \<^verbatim>\<open>this.update(readConfig)\<close> comes after the block, so its
  exception is not caught.
\<close>

definition load ::
  "(string \<Rightarrow> json option) \<Rightarrow> (json \<Rightarrow> string) \<Rightarrow> state \<Rightarrow> error option \<times> state" where
  "load parse stringify s =
     (let s1 = (if config_dir s then s else s\<lparr>config_dir := True\<rparr>) in
      case config_file s1 of
        None \<Rightarrow> (None, s1\<lparr>config_file := Some (stringify (JObj (config s1)))\<rparr>)
      | Some text \<Rightarrow>
          (case parse text of
             None \<Rightarrow> (None, s1\<lparr>config_file := Some (stringify (JObj (config s1)))\<rparr>)
           | Some readConfig \<Rightarrow> update_config readConfig s1))"

definition save :: "(json \<Rightarrow> string) \<Rightarrow> state \<Rightarrow> state" where
  "save stringify s = s\<lparr>config_file := Some (stringify (JObj (config s)))\<rparr>"

subsection \<open>\<^verbatim>\<open>get\<close>\<close>

text \<open>
  The loop of \<^verbatim>\<open>get\<close> over the pieces of a dotted key: \<^verbatim>\<open>cfg.hasOwnProperty(arg)\<close>
  throws on \<^verbatim>\<open>null\<close>, a missing piece gives \<^verbatim>\<open>null\<close>.
\<close>

fun get_nested :: "json \<Rightarrow> string list \<Rightarrow> error + json" where
  "get_nested cfg [] = Inr cfg"
| "get_nested cfg (arg # nested) =
     (if has_method cfg
      then (case own_prop cfg arg of
          None \<Rightarrow> Inr JNull
        | Some v \<Rightarrow> get_nested v nested)
      else Inl TypeError)"

definition get :: "string \<Rightarrow> state \<Rightarrow> error + json" where
  "get attr s =
     (if attr = [] then Inr (JObj (config s))
      else if indexOf attr CHR ''.'' > 0
      then get_nested (JObj (config s)) (split_str CHR ''.'' attr)
      else if has_method (JObj (config s))
      then (case map_of (config s) attr of
          Some v \<Rightarrow> Inr v
        | None \<Rightarrow> Inr JNull)
      else Inl TypeError)"

subsection \<open>\<^verbatim>\<open>set\<close>, \<^verbatim>\<open>_validate\<close> and \<^verbatim>\<open>bulkSet\<close>\<close>

text \<open>
  A validation rule (\<^verbatim>\<open>ZettlrValidation\<close>, not part of this file): its key and its
  predicate. \<^verbatim>\<open>_validate\<close> asks the first rule registered for the key, and accepts
  when there is none.
\<close>

type_synonym rule = "string \<times> (json \<Rightarrow> bool)"

definition validate :: "rule list \<Rightarrow> string \<Rightarrow> json \<Rightarrow> bool" where
  "validate rules key v =
     (case find (\<lambda>elem. fst elem = key) rules of
        Some r \<Rightarrow> snd r v
      | None \<Rightarrow> True)"

text \<open>
  \<^verbatim>\<open>xs.length = n\<close>: a shorter array loses its tail, a longer one gets empty slots.
\<close>

definition set_length :: "json list \<Rightarrow> nat \<Rightarrow> json list" where
  "set_length xs n = take n xs @ replicate (n - length xs) JHole"

text \<open>
  \<^verbatim>\<open>cfg[prop] = value\<close> where \<open>cfg\<close> owns \<open>prop\<close>. An object and an array slot take
  the value. The \<^verbatim>\<open>length\<close> of an array takes a number that is an unsigned 32-bit
  integer (\<open>toNumber\<close> is the host's conversion of the value to a number, \<open>None\<close> when
  the result is not an integer) and else throws a \<^verbatim>\<open>RangeError\<close>. The index and the
  length of a string are read-only, and the class body is strict code: \<^verbatim>\<open>TypeError\<close>.
\<close>

fun assign :: "(json \<Rightarrow> int option) \<Rightarrow> json \<Rightarrow> string \<Rightarrow> json \<Rightarrow> error + json" where
  "assign toNumber (JObj ps) prop v = Inr (JObj (assign_key ps prop v))"
| "assign toNumber (JArr xs) prop v =
     (if prop = ''length''
      then (case toNumber v of
          None \<Rightarrow> Inl RangeError
        | Some n \<Rightarrow>
            if 0 \<le> n \<and> n < 2 ^ 32 then Inr (JArr (set_length xs (nat n)))
            else Inl RangeError)
      else (case array_index prop of
          None \<Rightarrow> Inr (JArr xs)
        | Some i \<Rightarrow> Inr (JArr (xs[i := v]))))"
| "assign toNumber (JStr s) prop v = Inl TypeError"
| "assign toNumber cfg prop v = Inr cfg"

text \<open>
  The value a container holds after the container it has under \<open>arg\<close> was mutated in
  place. A string hands out fresh one-character strings, so nothing changes in it.
\<close>

fun put_back :: "json \<Rightarrow> string \<Rightarrow> json \<Rightarrow> json" where
  "put_back (JObj ps) arg sub = JObj (assign_key ps arg sub)"
| "put_back (JArr xs) arg sub =
     (case array_index arg of
        None \<Rightarrow> JArr xs
      | Some i \<Rightarrow> JArr (xs[i := sub]))"
| "put_back cfg arg sub = cfg"

text \<open>
  The nested branch of \<^verbatim>\<open>set\<close>: the loop over \<open>nested\<close> (the pieces of the key but
  the last), then the test and the assignment of the last piece \<open>prop\<close>. \<open>Inr None\<close>
  is \<^verbatim>\<open>return false\<close>; \<open>Inr (Some cfg')\<close> is the container after the assignment.
\<close>

fun set_nested ::
  "(json \<Rightarrow> int option) \<Rightarrow> rule list \<Rightarrow> string \<Rightarrow> json \<Rightarrow> json \<Rightarrow> string list \<Rightarrow> string
     \<Rightarrow> error + json option" where
  "set_nested toNumber rules option v cfg [] prop =
     (if \<not> has_method cfg then Inl TypeError
      else if own_prop cfg prop \<noteq> None \<and> validate rules option v
      then (case assign toNumber cfg prop v of
          Inl e \<Rightarrow> Inl e
        | Inr cfg' \<Rightarrow> Inr (Some cfg'))
      else Inr None)"
| "set_nested toNumber rules option v cfg (arg # nested) prop =
     (if \<not> has_method cfg then Inl TypeError
      else (case own_prop cfg arg of
          None \<Rightarrow> Inr None
        | Some sub \<Rightarrow>
            (case set_nested toNumber rules option v sub nested prop of
               Inl e \<Rightarrow> Inl e
             | Inr None \<Rightarrow> Inr None
             | Inr (Some sub') \<Rightarrow> Inr (Some (put_back cfg arg sub')))))"

text \<open>
  \<^verbatim>\<open>set (option, value)\<close>: the result, or the exception, and the state after it. The
  loop starts at the configuration, an object, and \<open>put_back\<close> and \<open>assign\<close> leave
  an object an object, so \<open>props_of\<close> reads the properties of what comes back.
\<close>

fun props_of :: "json \<Rightarrow> props" where
  "props_of (JObj ps) = ps"
| "props_of v = []"

definition set_option ::
  "(json \<Rightarrow> int option) \<Rightarrow> rule list \<Rightarrow> string \<Rightarrow> json \<Rightarrow> state \<Rightarrow> (error + bool) \<times> state"
  where
  "set_option toNumber rules option v s =
     (if \<not> has_method (JObj (config s)) then (Inl TypeError, s)
      else if map_of (config s) option \<noteq> None \<and> validate rules option v
      then (Inr True, s\<lparr>config := assign_key (config s) option v,
                         emitted := Suc (emitted s)\<rparr>)
      else if indexOf option CHR ''.'' > 0
      then (let nested = split_str CHR ''.'' option in
            case set_nested toNumber rules option v (JObj (config s))
                   (butlast nested) (last nested) of
              Inl e \<Rightarrow> (Inl e, s)
            | Inr None \<Rightarrow> (Inr False, s)
            | Inr (Some cfg') \<Rightarrow>
                (Inr True, s\<lparr>config := props_of cfg', emitted := Suc (emitted s)\<rparr>))
      else (Inr False, s))"

text \<open>\<^verbatim>\<open>bulkSet (cfgObj)\<close>: every entry is tried; an exception of \<^verbatim>\<open>set\<close> ends it.\<close>

fun bulkSet_loop ::
  "(json \<Rightarrow> int option) \<Rightarrow> rule list \<Rightarrow> props \<Rightarrow> bool \<Rightarrow> state \<Rightarrow> (error + bool) \<times> state"
  where
  "bulkSet_loop toNumber rules [] ret s = (Inr ret, s)"
| "bulkSet_loop toNumber rules ((opt, v) # rest) ret s =
     (case set_option toNumber rules opt v s of
        (Inl e, s') \<Rightarrow> (Inl e, s')
      | (Inr ok, s') \<Rightarrow> bulkSet_loop toNumber rules rest (ret \<and> ok) s')"

definition bulkSet ::
  "(json \<Rightarrow> int option) \<Rightarrow> rule list \<Rightarrow> props \<Rightarrow> state \<Rightarrow> (error + bool) \<times> state" where
  "bulkSet toNumber rules cfgObj s = bulkSet_loop toNumber rules cfgObj True s"

subsection \<open>The list of open paths\<close>

text \<open>
  In the template \<^verbatim>\<open>config['openPaths']\<close> and \<^verbatim>\<open>config['selectedDicts']\<close> are
  arrays of strings, and \<^verbatim>\<open>addPath\<close> puts strings in. But \<^verbatim>\<open>update\<close>, \<^verbatim>\<open>set\<close> and
  the file that \<^verbatim>\<open>load\<close> reads can store any value under the two keys, and an array
  with any entries, so the methods are modelled on every value they can meet there.
  \<open>prop_of s key\<close> is \<^verbatim>\<open>this.config[key]\<close>, which is \<^verbatim>\<open>undefined\<close> (\<open>JHole\<close>) when
  the object has no such property. \<open>put_prop\<close> is the assignment to it; it also writes
  back an array that a method has changed in place.
\<close>

definition prop_of :: "state \<Rightarrow> string \<Rightarrow> json" where
  "prop_of s key = (case map_of (config s) key of None \<Rightarrow> JHole | Some v \<Rightarrow> v)"

definition put_prop :: "string \<Rightarrow> json \<Rightarrow> state \<Rightarrow> state" where
  "put_prop key v s = s\<lparr>config := assign_key (config s) key v\<rparr>"

text \<open>
  What \<^verbatim>\<open>for (let p of v)\<close> and \<^verbatim>\<open>new Set(v)\<close> run through: the entries of an array
  (an empty slot gives \<^verbatim>\<open>undefined\<close>) and the characters of a string. No other value
  of the tree can be iterated: \<^verbatim>\<open>TypeError\<close>, here \<open>None\<close>.
\<close>

fun iterate :: "json \<Rightarrow> json list option" where
  "iterate (JArr xs) = Some xs"
| "iterate (JStr t) = Some (map (\<lambda>c. JStr [c]) t)"
| "iterate v = None"

text \<open>The decimal numeral of a number.\<close>

function decimal_nat :: "nat \<Rightarrow> string" where
  "decimal_nat n =
     (if n < 10 then [char_of (48 + n)]
      else decimal_nat (n div 10) @ [char_of (48 + n mod 10)])"
  by pat_completeness auto
termination
  by (relation "measure id") auto

declare decimal_nat.simps [simp del]

definition decimal :: "int \<Rightarrow> string" where
  "decimal n = (if n < 0 then CHR ''-'' # decimal_nat (nat (- n)) else decimal_nat (nat n))"

text \<open>
  The text of a value (\<^verbatim>\<open>ToString\<close>), which the default order of \<^verbatim>\<open>sort()\<close> compares.
  An array is the texts of its entries joined with commas, where \<^verbatim>\<open>null\<close> and
  \<^verbatim>\<open>undefined\<close> give the empty text. An object is \<^verbatim>\<open>[object Object]\<close>, the answer of
  the inherited \<^verbatim>\<open>toString\<close>; when a property \<^verbatim>\<open>toString\<close> of its own stands in front
  of that method there is nothing to call, and the conversion throws a \<^verbatim>\<open>TypeError\<close>,
  here \<open>None\<close>. (Numbers from \<open>10\<^sup>2\<^sup>1\<close> on, which the host prints with an exponent,
  are left out.)
\<close>

fun to_text :: "json \<Rightarrow> string option"
  and texts :: "json list \<Rightarrow> string list option"
where
  "to_text JNull = Some ''null''"
| "to_text (JBool b) = Some (if b then ''true'' else ''false'')"
| "to_text (JNum n) = Some (decimal n)"
| "to_text (JStr t) = Some t"
| "to_text (JArr xs) =
     (case texts xs of None \<Rightarrow> None | Some ts \<Rightarrow> Some (join_str CHR '','' ts))"
| "to_text (JObj ps) =
     (if map_of ps ''toString'' = None then Some ''[object Object]'' else None)"
| "to_text JHole = Some ''undefined''"
| "texts [] = Some []"
| "texts (x # xs) =
     (case (if x = JNull \<or> x = JHole then Some [] else to_text x) of
        None \<Rightarrow> None
      | Some t \<Rightarrow> (case texts xs of None \<Rightarrow> None | Some ts \<Rightarrow> Some (t # ts)))"

definition text_key :: "json \<Rightarrow> string" where
  "text_key v = (case to_text v of None \<Rightarrow> [] | Some t \<Rightarrow> t)"

text \<open>
  \<^verbatim>\<open>xs.sort()\<close> without a comparison function: the entries that are \<^verbatim>\<open>undefined\<close> go
  to the end, the others are ordered by the code units of their texts, and entries of
  equal text keep their order. Two entries or more are compared, and so converted, and
  a conversion that throws ends the sort with nothing changed.
\<close>

definition sort_default :: "json list \<Rightarrow> json list option" where
  "sort_default xs =
     (let ys = filter (\<lambda>v. v \<noteq> JHole) xs; us = filter (\<lambda>v. v = JHole) xs
      in if 2 \<le> length ys \<and> \<not> list_all (\<lambda>v. to_text v \<noteq> None) ys then None
         else Some (sort_key text_key ys @ us))"

text \<open>
  \<^verbatim>\<open>_sortPaths ()\<close>: the loop sorts the entries into \<open>f\<close> and \<open>d\<close> by \<^verbatim>\<open>isDir\<close> (a
  helper of another file, asked about every entry), \<^verbatim>\<open>f.sort()\<close> and \<^verbatim>\<open>d.sort()\<close>
  order the two, and \<^verbatim>\<open>f.concat(d)\<close> becomes the new list. An exception leaves the
  property as it was. (An empty slot of the old list is an entry \<^verbatim>\<open>undefined\<close> of the new
  one; the model writes \<open>JHole\<close> for both.)
\<close>

definition sortPaths :: "(json \<Rightarrow> bool) \<Rightarrow> state \<Rightarrow> error option \<times> state" where
  "sortPaths isDir s =
     (case iterate (prop_of s ''openPaths'') of
        None \<Rightarrow> (Some TypeError, s)
      | Some xs \<Rightarrow>
          (case sort_default (filter (\<lambda>p. \<not> isDir p) xs) of
             None \<Rightarrow> (Some TypeError, s)
           | Some f \<Rightarrow>
               (case sort_default (filter isDir xs) of
                  None \<Rightarrow> (Some TypeError, s)
                | Some d \<Rightarrow> (None, put_prop ''openPaths'' (JArr (f @ d)) s))))"

text \<open>
  \<^verbatim>\<open>addPath (p)\<close>; \<^verbatim>\<open>ignoreFile\<close> is a helper of another file as well. The condition
  asks the two helpers first and the list only when they let the path pass.
  \<^verbatim>\<open>includes\<close> and \<^verbatim>\<open>push\<close> are methods of an array. A string has \<^verbatim>\<open>includes\<close> too
  (\<open>p\<close> occurs in it) but no \<^verbatim>\<open>push\<close>; the other values have neither, and calling what
  is not there is a \<^verbatim>\<open>TypeError\<close>. The exception of a failed sort leaves the path
  appended.
\<close>

definition addPath ::
  "(string \<Rightarrow> bool) \<Rightarrow> (json \<Rightarrow> bool) \<Rightarrow> string \<Rightarrow> state \<Rightarrow> (error + bool) \<times> state" where
  "addPath ignoreFile isDir p s =
     (if \<not> (\<not> ignoreFile p \<or> isDir (JStr p)) then (Inr False, s)
      else (case prop_of s ''openPaths'' of
          JArr xs \<Rightarrow>
            if JStr p \<in> set xs then (Inr False, s)
            else (case sortPaths isDir (put_prop ''openPaths'' (JArr (xs @ [JStr p])) s) of
                (Some e, s') \<Rightarrow> (Inl e, s')
              | (None, s') \<Rightarrow> (Inr True, s'))
        | JStr t \<Rightarrow> if contains t p then (Inr False, s) else (Inl TypeError, s)
        | _ \<Rightarrow> (Inl TypeError, s)))"

text \<open>
  \<^verbatim>\<open>removePath (p)\<close>: \<^verbatim>\<open>splice\<close> takes out the first occurrence. A string that
  contains \<open>p\<close> has no \<^verbatim>\<open>splice\<close>.
\<close>

definition removePath :: "string \<Rightarrow> state \<Rightarrow> error option \<times> state" where
  "removePath p s =
     (case prop_of s ''openPaths'' of
        JArr xs \<Rightarrow>
          if JStr p \<in> set xs
          then (None, put_prop ''openPaths'' (JArr (remove1 (JStr p) xs)) s)
          else (None, s)
      | JStr t \<Rightarrow> if contains t p then (Some TypeError, s) else (None, s)
      | _ \<Rightarrow> (Some TypeError, s))"

text \<open>
  The loops of \<^verbatim>\<open>checkPaths\<close> on an array: \<^verbatim>\<open>for (let i = 0; i < xs.length; i++)\<close>,
  where a failed test removes the entry with \<^verbatim>\<open>splice(i, 1)\<close> and steps \<open>i\<close> back, so
  that the next round looks at the same index.
\<close>

function prune :: "('a \<Rightarrow> bool) \<Rightarrow> nat \<Rightarrow> 'a list \<Rightarrow> 'a list" where
  "prune ok i xs =
     (if i < length xs
      then (if ok (xs ! i) then prune ok (Suc i) xs
            else prune ok i (take i xs @ drop (Suc i) xs))
      else xs)"
  by pat_completeness auto
termination
  by (relation "measure (\<lambda>(ok, i, xs). 2 * length xs - i)") auto

declare prune.simps [simp del]

text \<open>
  The test of the first loop, \<^verbatim>\<open>fs.lstatSync(entry)\<close> inside \<^verbatim>\<open>try\<close>: \<open>exists\<close> says
  whether the call succeeds on a path; on an entry that is not a string it throws, which
  the \<^verbatim>\<open>catch\<close> treats like a path that is not there.
\<close>

definition lstat_ok :: "(string \<Rightarrow> bool) \<Rightarrow> json \<Rightarrow> bool" where
  "lstat_ok exists v = (case v of JStr p \<Rightarrow> exists p | _ \<Rightarrow> False)"

text \<open>
  The first loop on whatever \<^verbatim>\<open>config['openPaths']\<close> is; \<open>None\<close> is a \<^verbatim>\<open>TypeError\<close>.
  An array is pruned. A string has a length and characters, but no \<^verbatim>\<open>splice\<close> for the
  \<^verbatim>\<open>catch\<close> block to call, so it gets through when every character is a path that
  exists. A number or a boolean has no length, and the loop does not run. \<^verbatim>\<open>null\<close>
  and \<^verbatim>\<open>undefined\<close> have no properties to read. An object that is not an array ends
  in a \<^verbatim>\<open>TypeError\<close> in every case, unchanged: in the loop, which finds an entry that
  is no path and no \<^verbatim>\<open>splice\<close>, or after it, since \<^verbatim>\<open>new Set\<close> cannot iterate it.
\<close>

fun prune_paths :: "(string \<Rightarrow> bool) \<Rightarrow> json \<Rightarrow> json option" where
  "prune_paths exists (JArr xs) = Some (JArr (prune (lstat_ok exists) 0 xs))"
| "prune_paths exists (JStr t) = (if list_all (\<lambda>c. exists [c]) t then Some (JStr t) else None)"
| "prune_paths exists (JBool b) = Some (JBool b)"
| "prune_paths exists (JNum n) = Some (JNum n)"
| "prune_paths exists v = None"

text \<open>
  \<^verbatim>\<open>[...new Set(xs)]\<close>: a set keeps the first of equal entries, in insertion order. The
  entries that reach it in \<^verbatim>\<open>checkPaths\<close> are strings, which are equal when they read
  the same.
\<close>

definition uniq :: "'a list \<Rightarrow> 'a list" where
  "uniq xs = foldl (\<lambda>seen x. if x \<in> set seen then seen else seen @ [x]) [] xs"

text \<open>
  The second loop, over \<^verbatim>\<open>config['selectedDicts']\<close>, with the test
  \<^verbatim>\<open>isDictAvailable\<close> (a helper of another file) and no \<^verbatim>\<open>try\<close>. An array is pruned.
  On a string the first character that fails the test meets the missing \<^verbatim>\<open>splice\<close>. An
  object that is not an array is looked at below its \<^verbatim>\<open>length\<close>, if it has one, and
  has no \<^verbatim>\<open>splice\<close> either: \<open>entry ps i\<close> is \<^verbatim>\<open>obj[i]\<close>, and \<open>toNumber\<close> is the
  host's conversion of a length that is not a number (\<open>None\<close>, no integer, ends the loop
  like \<^verbatim>\<open>NaN\<close>).
\<close>

definition entry :: "props \<Rightarrow> nat \<Rightarrow> json" where
  "entry ps i =
     (case find (\<lambda>kv. array_index (fst kv) = Some i) ps of
        None \<Rightarrow> JHole
      | Some kv \<Rightarrow> snd kv)"

definition length_of :: "(json \<Rightarrow> int option) \<Rightarrow> props \<Rightarrow> nat" where
  "length_of toNumber ps =
     (case map_of ps ''length'' of
        None \<Rightarrow> 0
      | Some (JNum n) \<Rightarrow> nat n
      | Some v \<Rightarrow> (case toNumber v of None \<Rightarrow> 0 | Some n \<Rightarrow> nat n))"

fun prune_dicts :: "(json \<Rightarrow> int option) \<Rightarrow> (json \<Rightarrow> bool) \<Rightarrow> json \<Rightarrow> json option" where
  "prune_dicts toNumber isDictAvailable (JArr ys) = Some (JArr (prune isDictAvailable 0 ys))"
| "prune_dicts toNumber isDictAvailable (JStr t) =
     (if list_all (\<lambda>c. isDictAvailable (JStr [c])) t then Some (JStr t) else None)"
| "prune_dicts toNumber isDictAvailable (JBool b) = Some (JBool b)"
| "prune_dicts toNumber isDictAvailable (JNum n) = Some (JNum n)"
| "prune_dicts toNumber isDictAvailable (JObj ps) =
     (if list_all (\<lambda>i. isDictAvailable (entry ps i)) [0 ..< length_of toNumber ps]
      then Some (JObj ps) else None)"
| "prune_dicts toNumber isDictAvailable v = None"

text \<open>
  \<^verbatim>\<open>checkPaths ()\<close>: the \<^verbatim>\<open>dict\<close> directory, the first loop, the removal of
  duplicates, the sort, the second loop. An exception ends it where it is.
\<close>

definition checkPaths ::
  "(json \<Rightarrow> int option) \<Rightarrow> (string \<Rightarrow> bool) \<Rightarrow> (json \<Rightarrow> bool) \<Rightarrow> (json \<Rightarrow> bool) \<Rightarrow> state
     \<Rightarrow> error option \<times> state"
  where
  "checkPaths toNumber exists isDir isDictAvailable s =
     (let s1 = s\<lparr>dict_dir := True\<rparr> in
      case prune_paths exists (prop_of s1 ''openPaths'') of
        None \<Rightarrow> (Some TypeError, s1)
      | Some x \<Rightarrow>
          (case iterate x of
             None \<Rightarrow> (Some TypeError, s1)
           | Some ys \<Rightarrow>
               (case sortPaths isDir (put_prop ''openPaths'' (JArr (uniq ys)) s1) of
                  (Some e, s2) \<Rightarrow> (Some e, s2)
                | (None, s2) \<Rightarrow>
                    (case prune_dicts toNumber isDictAvailable (prop_of s2 ''selectedDicts'') of
                       None \<Rightarrow> (Some TypeError, s2)
                     | Some y \<Rightarrow> (None, put_prop ''selectedDicts'' y s2)))))"

text \<open>
  The order the claim speaks of, for a list of paths: the entries that are not
  directories first, and both groups ascending; and the same with no entry twice.
\<close>

definition paths_ordered :: "(json \<Rightarrow> bool) \<Rightarrow> string list \<Rightarrow> bool" where
  "paths_ordered isDir ps =
     (ps = filter (\<lambda>p. \<not> isDir (JStr p)) ps @ filter (\<lambda>p. isDir (JStr p)) ps \<and>
      sorted (filter (\<lambda>p. \<not> isDir (JStr p)) ps) \<and>
      sorted (filter (\<lambda>p. isDir (JStr p)) ps))"


text \<open>
  The strings of a list of entries, when strings are all it holds, and the list of open
  paths of a state, when it is such an array.
\<close>

fun strings_of :: "json list \<Rightarrow> string list option" where
  "strings_of [] = Some []"
| "strings_of (JStr p # xs) =
     (case strings_of xs of None \<Rightarrow> None | Some ps \<Rightarrow> Some (p # ps))"
| "strings_of (v # xs) = None"

definition open_paths :: "state \<Rightarrow> string list option" where
  "open_paths s =
     (case prop_of s ''openPaths'' of
        JArr xs \<Rightarrow> strings_of xs
      | _ \<Rightarrow> None)"



subsection \<open>Translations, dictionaries and the locale\<close>

text \<open>
  The two regular expressions, as matchers in continuation style: \<open>counted cls ns k\<close>
  matches \<open>n\<close> characters of the class for some \<open>n\<close> of \<open>ns\<close> and then \<open>k\<close>,
  \<open>lit l k\<close> matches the text \<open>l\<close> and then \<open>k\<close>.
\<close>

definition lower :: "char \<Rightarrow> bool" where
  "lower c = (CHR ''a'' \<le> c \<and> c \<le> CHR ''z'')"

definition upper :: "char \<Rightarrow> bool" where
  "upper c = (CHR ''A'' \<le> c \<and> c \<le> CHR ''Z'')"

definition counted :: "(char \<Rightarrow> bool) \<Rightarrow> nat list \<Rightarrow> (string \<Rightarrow> bool) \<Rightarrow> string \<Rightarrow> bool" where
  "counted cls ns k s =
     list_ex (\<lambda>n. n \<le> length s \<and> list_all cls (take n s) \<and> k (drop n s)) ns"

definition lit :: "string \<Rightarrow> (string \<Rightarrow> bool) \<Rightarrow> string \<Rightarrow> bool" where
  "lit l k s = (prefix l s \<and> k (drop (length l) s))"

text \<open>\<^verbatim>\<open>[a-z]{1,3}_[A-Z]{1,3}\<close>, then \<open>k\<close>.\<close>

definition tag_re :: "(string \<Rightarrow> bool) \<Rightarrow> string \<Rightarrow> bool" where
  "tag_re k = counted lower [1, 2, 3] (lit ''_'' (counted upper [1, 2, 3] k))"

text \<open>
  \<^verbatim>\<open>/[a-z]{1,3}_[A-Z]{1,3}\.json/.test(f)\<close>: the expression has no anchors, so a match
  may start anywhere in \<open>f\<close> and end before its end.
\<close>

definition lang_file_re :: "string \<Rightarrow> bool" where
  "lang_file_re f =
     list_ex (\<lambda>i. tag_re (lit ''.json'' (\<lambda>r. True)) (drop i f)) [0..<Suc (length f)]"

text \<open>\<^verbatim>\<open>/^[a-z]{1,3}_[A-Z]{1,3}$/.test(d)\<close>: the whole of \<open>d\<close>.\<close>

definition dict_dir_re :: "string \<Rightarrow> bool" where
  "dict_dir_re d = tag_re (\<lambda>r. r = []) d"

text \<open>
  One loop of \<^verbatim>\<open>getSupportedLangs\<close> over a directory listing:
  \<^verbatim>\<open>f.substr(0, f.lastIndexOf('.'))\<close> of every file that passes the test.
\<close>

definition language_files :: "string list \<Rightarrow> string list" where
  "language_files files =
     map (\<lambda>f. take (nat (lastIndexOf f CHR ''.'')) f) (filter lang_file_re files)"

text \<open>
  \<^verbatim>\<open>getSupportedLangs ()\<close>: \<open>files\<close> is the listing of the bundled directory, \<open>user\<close>
  that of the user's directory, \<open>None\<close> when \<^verbatim>\<open>readdirSync\<close> throws there.
\<close>

definition getSupportedLangs :: "string list \<Rightarrow> string list option \<Rightarrow> string list" where
  "getSupportedLangs files user =
     language_files files @ (case user of None \<Rightarrow> [] | Some fs \<Rightarrow> language_files fs)"

text \<open>
  One loop of \<^verbatim>\<open>getDictionaries\<close>; \<open>in_folder d\<close> is
  \<^verbatim>\<open>path.join(scanfolder, d)\<close>.
\<close>

definition dict_dirs ::
  "(string \<Rightarrow> bool) \<Rightarrow> (string \<Rightarrow> bool) \<Rightarrow> (string \<Rightarrow> string) \<Rightarrow> string list \<Rightarrow> string list"
  where
  "dict_dirs isDir isDictAvailable in_folder dirs =
     filter (\<lambda>d. dict_dir_re d \<and> isDir (in_folder d) \<and> isDictAvailable d) dirs"

definition getDictionaries ::
  "(string \<Rightarrow> bool) \<Rightarrow> (string \<Rightarrow> bool) \<Rightarrow> (string \<Rightarrow> string) \<Rightarrow> string list
     \<Rightarrow> (string \<Rightarrow> string) \<Rightarrow> string list option \<Rightarrow> string list" where
  "getDictionaries isDir isDictAvailable in_bundled dirs in_user user =
     dict_dirs isDir isDictAvailable in_bundled dirs @
     (case user of
        None \<Rightarrow> []
      | Some ds \<Rightarrow> dict_dirs isDir isDictAvailable in_user ds)"

text \<open>\<^verbatim>\<open>xs[i]\<close> of an array of strings: \<open>None\<close> is \<^verbatim>\<open>undefined\<close>.\<close>

definition nth_opt :: "string list \<Rightarrow> nat \<Rightarrow> string option" where
  "nth_opt xs i = (if i < length xs then Some (xs ! i) else None)"

text \<open>
  The loop of \<^verbatim>\<open>getLocale\<close> over the supported tags; \<open>lang\<close> is \<open>None\<close> where the
  code has \<^verbatim>\<open>null\<close>.
\<close>

fun locale_loop :: "string option \<Rightarrow> string option \<Rightarrow> string list \<Rightarrow> string" where
  "locale_loop mainlang lang [] = ''en_US''"
| "locale_loop mainlang lang (tag # tags) =
     (let ml = nth_opt (split_str CHR ''_'' tag) 0;
          sl = nth_opt (split_str CHR ''_'' tag) 1
      in if ml = mainlang
         then (if lang = None then tag
               else if sl = lang then tag
               else locale_loop mainlang lang tags)
         else locale_loop mainlang lang tags)"

text \<open>
  \<^verbatim>\<open>getLocale ()\<close>: \<open>raw\<close> is what \<^verbatim>\<open>app.getLocale()\<close> returns, \<open>files\<close> and \<open>user\<close>
  are the listings \<^verbatim>\<open>getSupportedLangs\<close> reads.
\<close>

definition getLocale :: "string \<Rightarrow> string list \<Rightarrow> string list option \<Rightarrow> string" where
  "getLocale raw files user =
     (let (mainlang, lang) =
            (if indexOf raw CHR ''-'' > - 1
             then (nth_opt (split_str CHR ''-'' raw) 0, nth_opt (split_str CHR ''-'' raw) 1)
             else (Some raw, None))
      in locale_loop mainlang lang (getSupportedLangs files user))"

text \<open>
  The claim's words for the locale: the main part of a string split at a separator, its
  sub part if there is one, and when a supported tag matches a raw locale.
\<close>

definition main_part :: "char \<Rightarrow> string \<Rightarrow> string" where
  "main_part d s = takeWhile (\<lambda>c. c \<noteq> d) s"

definition sub_part :: "char \<Rightarrow> string \<Rightarrow> string option" where
  "sub_part d s =
     (if d \<in> set s then Some (takeWhile (\<lambda>c. c \<noteq> d) (tl (dropWhile (\<lambda>c. c \<noteq> d) s)))
      else None)"

definition tag_matches :: "string \<Rightarrow> string \<Rightarrow> bool" where
  "tag_matches raw tag =
     (main_part CHR ''_'' tag = main_part CHR ''-'' raw \<and>
      (sub_part CHR ''-'' raw = None \<or> sub_part CHR ''_'' tag = sub_part CHR ''-'' raw))"

subsection \<open>\<^verbatim>\<open>checkSystem\<close>\<close>

text \<open>
  The platform decides the separator of the search path and which list of
  \<^verbatim>\<open>COMMON_DATA.additional_paths\<close> (of \<^verbatim>\<open>data.json\<close>, another file) is used.
\<close>

datatype platform = Win32 | Linux | Darwin | OtherPlatform

record common_data =
  win32 :: "string list"
  linux :: "string list"
  macos :: "string list"

definition additional_paths :: "platform \<Rightarrow> common_data \<Rightarrow> string list" where
  "additional_paths pf data =
     (case pf of
        Win32 \<Rightarrow> win32 data
      | Linux \<Rightarrow> linux data
      | Darwin \<Rightarrow> macos data
      | OtherPlatform \<Rightarrow> [])"

definition delim :: "platform \<Rightarrow> char" where
  "delim pf = (if pf = Win32 then CHR '';'' else CHR '':'')"

text \<open>\<open>y\<close> of the loop: \<open>x\<close> without its trailing slash, or with one added.\<close>

definition other_form :: "string \<Rightarrow> string" where
  "other_form x = (if x \<noteq> [] \<and> last x = CHR ''/'' then butlast x else x @ ''/'')"

fun add_paths :: "string list \<Rightarrow> string list \<Rightarrow> string list" where
  "add_paths nPATH [] = nPATH"
| "add_paths nPATH (x # xs) =
     add_paths (if x \<notin> set nPATH \<and> other_form x \<notin> set nPATH then nPATH @ [x] else nPATH) xs"

text \<open>
  The block for one executable (\<^verbatim>\<open>'xelatex'\<close>, then \<^verbatim>\<open>'pandoc'\<close>). \<open>dirname\<close> is
  \<^verbatim>\<open>path.dirname\<close>, which throws a \<^verbatim>\<open>TypeError\<close> on a value that is not a string.
\<close>

definition add_tool_dir ::
  "(string \<Rightarrow> string) \<Rightarrow> char \<Rightarrow> string \<Rightarrow> state \<Rightarrow> error option \<times> state" where
  "add_tool_dir dirname d tool s =
     (case get tool s of
        Inl e \<Rightarrow> (Some e, s)
      | Inr (JStr p) \<Rightarrow>
          if length (dirname p) > 0 \<and> \<not> contains (PATH s) (dirname p)
          then (None, s\<lparr>PATH := PATH s @ d # dirname p\<rparr>)
          else (None, s)
      | Inr _ \<Rightarrow> (Some TypeError, s))"

text \<open>\<^verbatim>\<open>!v\<close> for a property that may be missing (\<open>None\<close>).\<close>

fun falsy :: "json option \<Rightarrow> bool" where
  "falsy None = True"
| "falsy (Some JNull) = True"
| "falsy (Some JHole) = True"
| "falsy (Some (JBool b)) = (\<not> b)"
| "falsy (Some (JNum n)) = (n = 0)"
| "falsy (Some (JStr s)) = (s = [])"
| "falsy (Some v) = False"

text \<open>
  The first block of \<^verbatim>\<open>checkSystem\<close>: the search path is split, the loop adds the
  additional paths it does not find, and the pieces are joined again.
\<close>

definition add_additional :: "char \<Rightarrow> string list \<Rightarrow> state \<Rightarrow> state" where
  "add_additional d extra s =
     (if length extra > 0
      then s\<lparr>PATH := join_str d (add_paths (split_str d (PATH s)) extra)\<rparr>
      else s)"

text \<open>
  \<^verbatim>\<open>checkSystem ()\<close>; \<open>uuid\<close> is the identifier \<^verbatim>\<open>uuid('com.zettlr.app', uuid.DNS)\<close>
  gives.
\<close>

definition checkSystem ::
  "platform \<Rightarrow> common_data \<Rightarrow> (string \<Rightarrow> string) \<Rightarrow> string \<Rightarrow> state \<Rightarrow> error option \<times> state"
  where
  "checkSystem pf data dirname uuid s =
     (case add_tool_dir dirname (delim pf) ''xelatex''
             (add_additional (delim pf) (additional_paths pf data) s) of
        (Some e, s2) \<Rightarrow> (Some e, s2)
      | (None, s2) \<Rightarrow>
          (case add_tool_dir dirname (delim pf) ''pandoc'' s2 of
             (Some e, s3) \<Rightarrow> (Some e, s3)
           | (None, s3) \<Rightarrow>
               (None,
                if falsy (map_of (config s3) ''uuid'')
                then s3\<lparr>config := assign_key (config s3) ''uuid'' (JStr uuid)\<rparr>
                else s3)))"

text \<open>Every additional path is in the list, in one of its two forms.\<close>

definition covered :: "string list \<Rightarrow> string list \<Rightarrow> bool" where
  "covered L xs = (\<forall>x\<in>set xs. x \<in> set L \<or> other_form x \<in> set L)"

subsection \<open>The configuration on the heap\<close>

text \<open>
  Objects and arrays are shared by reference, and one claim is about that: what
  \<^verbatim>\<open>get\<close> hands out is the object inside the tree itself, and the accessor
  \<^verbatim>\<open>global.config.get\<close> passes it through \<^verbatim>\<open>JSON.parse(JSON.stringify(...))\<close> first.
  For this claim the tree lives on a heap: a list of cells, the address of a cell being
  its index, and a value is a primitive or a reference to a cell. A new cell is put at
  the end.
\<close>

type_synonym addr = nat

datatype hval = HNull | HBool bool | HNum int | HStr string | HRef addr

datatype cell = Object "(string \<times> hval) list" | Array "hval list"

type_synonym heap = "cell list"

text \<open>The own property \<open>k\<close> of a cell, and of a value on a heap, as \<open>own_prop\<close>.\<close>

fun cell_prop :: "cell \<Rightarrow> string \<Rightarrow> hval option" where
  "cell_prop (Object ps) k = map_of ps k"
| "cell_prop (Array xs) k =
     (if k = ''length'' then Some (HNum (int (length xs)))
      else (case array_index k of
          None \<Rightarrow> None
        | Some i \<Rightarrow> if i < length xs then Some (xs ! i) else None))"

fun heap_prop :: "heap \<Rightarrow> hval \<Rightarrow> string \<Rightarrow> hval option" where
  "heap_prop h (HRef a) k = (if a < length h then cell_prop (h ! a) k else None)"
| "heap_prop h (HStr s) k =
     (if k = ''length'' then Some (HNum (int (length s)))
      else (case array_index k of
          None \<Rightarrow> None
        | Some i \<Rightarrow> if i < length s then Some (HStr [s ! i]) else None))"
| "heap_prop h v k = None"

text \<open>
  \<^verbatim>\<open>get (attr)\<close> on the heap, \<open>root\<close> being the address of \<^verbatim>\<open>this.config\<close>: the same
  steps as \<open>get\<close>, and the result is the value found, a reference where it is an
  object or an array.
\<close>

definition heap_has_method :: "heap \<Rightarrow> hval \<Rightarrow> bool" where
  "heap_has_method h v = (v \<noteq> HNull \<and> heap_prop h v ''hasOwnProperty'' = None)"

fun heap_get_nested :: "heap \<Rightarrow> hval \<Rightarrow> string list \<Rightarrow> error + hval" where
  "heap_get_nested h cfg [] = Inr cfg"
| "heap_get_nested h cfg (arg # nested) =
     (if heap_has_method h cfg
      then (case heap_prop h cfg arg of
          None \<Rightarrow> Inr HNull
        | Some v \<Rightarrow> heap_get_nested h v nested)
      else Inl TypeError)"

definition heap_get :: "heap \<Rightarrow> addr \<Rightarrow> string \<Rightarrow> error + hval" where
  "heap_get h root attr =
     (if attr = [] then Inr (HRef root)
      else if indexOf attr CHR ''.'' > 0
      then heap_get_nested h (HRef root) (split_str CHR ''.'' attr)
      else if heap_has_method h (HRef root)
      then (case heap_prop h (HRef root) attr of
          Some v \<Rightarrow> Inr v
        | None \<Rightarrow> Inr HNull)
      else Inl TypeError)"

text \<open>
  \<^verbatim>\<open>JSON.stringify (v)\<close> reads everything below \<open>v\<close>. It keeps the objects it is
  inside of on a stack (\<open>st\<close>) and throws a \<^verbatim>\<open>TypeError\<close> when it meets one of them
  again; so it ends on every heap, each step down leaving one cell fewer that is not on
  the stack.
\<close>

definition unvisited :: "heap \<Rightarrow> addr list \<Rightarrow> nat" where
  "unvisited h st = length h - card (set st \<inter> {..<length h})"

lemma unvisited_less:
  "a \<notin> set st \<Longrightarrow> a < length h \<Longrightarrow> unvisited h (a # st) < unvisited h st"
proof -
  assume a: "a \<notin> set st" "a < length h"
  have fin: "finite (set st \<inter> {..<length h})" by simp
  have sub: "insert a (set st \<inter> {..<length h}) \<subseteq> {..<length h}" using a by auto
  have "card (insert a (set st \<inter> {..<length h})) \<le> card {..<length h}"
    by (rule card_mono[OF _ sub]) simp
  moreover have "card (insert a (set st \<inter> {..<length h})) = Suc (card (set st \<inter> {..<length h}))"
    using a fin by simp
  moreover have "set (a # st) \<inter> {..<length h} = insert a (set st \<inter> {..<length h})"
    using a by auto
  ultimately show ?thesis by (simp add: unvisited_def)
qed

function freeze :: "heap \<Rightarrow> addr list \<Rightarrow> hval \<Rightarrow> error + json"
  and freeze_list :: "heap \<Rightarrow> addr list \<Rightarrow> hval list \<Rightarrow> error + json list"
  and freeze_props :: "heap \<Rightarrow> addr list \<Rightarrow> (string \<times> hval) list \<Rightarrow> error + props"
where
  "freeze h st HNull = Inr JNull"
| "freeze h st (HBool b) = Inr (JBool b)"
| "freeze h st (HNum n) = Inr (JNum n)"
| "freeze h st (HStr s) = Inr (JStr s)"
| "freeze h st (HRef a) =
     (if a \<in> set st \<or> \<not> a < length h then Inl TypeError
      else (case h ! a of
          Object ps \<Rightarrow>
            (case freeze_props h (a # st) ps of Inl e \<Rightarrow> Inl e | Inr ps' \<Rightarrow> Inr (JObj ps'))
        | Array xs \<Rightarrow>
            (case freeze_list h (a # st) xs of Inl e \<Rightarrow> Inl e | Inr xs' \<Rightarrow> Inr (JArr xs'))))"
| "freeze_list h st [] = Inr []"
| "freeze_list h st (v # vs) =
     (case freeze h st v of
        Inl e \<Rightarrow> Inl e
      | Inr t \<Rightarrow> (case freeze_list h st vs of Inl e \<Rightarrow> Inl e | Inr ts \<Rightarrow> Inr (t # ts)))"
| "freeze_props h st [] = Inr []"
| "freeze_props h st ((k, v) # ps) =
     (case freeze h st v of
        Inl e \<Rightarrow> Inl e
      | Inr t \<Rightarrow> (case freeze_props h st ps of Inl e \<Rightarrow> Inl e | Inr ts \<Rightarrow> Inr ((k, t) # ts)))"
  by pat_completeness auto
termination
  by (relation "inv_image (less_than <*lex*> less_than)
        (\<lambda>x. case x of
           Inl (h, st, v) \<Rightarrow> (unvisited h st, 0)
         | Inr (Inl (h, st, vs)) \<Rightarrow> (unvisited h st, Suc (length vs))
         | Inr (Inr (h, st, ps)) \<Rightarrow> (unvisited h st, Suc (length ps)))")
     (auto simp: unvisited_less)

text \<open>
  \<^verbatim>\<open>JSON.parse\<close> builds what it reads from new objects. \<^verbatim>\<open>JSON.stringify\<close> writes
  the tree below a value and \<^verbatim>\<open>JSON.parse\<close> reads the same tree back, so the model hands
  the tree over as it is. An empty slot is written as \<^verbatim>\<open>null\<close>.
\<close>

fun alloc :: "json \<Rightarrow> heap \<Rightarrow> hval \<times> heap"
  and alloc_list :: "json list \<Rightarrow> heap \<Rightarrow> hval list \<times> heap"
  and alloc_props :: "props \<Rightarrow> heap \<Rightarrow> (string \<times> hval) list \<times> heap"
where
  "alloc JNull h = (HNull, h)"
| "alloc JHole h = (HNull, h)"
| "alloc (JBool b) h = (HBool b, h)"
| "alloc (JNum n) h = (HNum n, h)"
| "alloc (JStr s) h = (HStr s, h)"
| "alloc (JArr xs) h =
     (case alloc_list xs h of (vs, h1) \<Rightarrow> (HRef (length h1), h1 @ [Array vs]))"
| "alloc (JObj ps) h =
     (case alloc_props ps h of (fs, h1) \<Rightarrow> (HRef (length h1), h1 @ [Object fs]))"
| "alloc_list [] h = ([], h)"
| "alloc_list (x # xs) h =
     (case alloc x h of (v, h1) \<Rightarrow>
        (case alloc_list xs h1 of (vs, h2) \<Rightarrow> (v # vs, h2)))"
| "alloc_props [] h = ([], h)"
| "alloc_props ((k, x) # ps) h =
     (case alloc x h of (v, h1) \<Rightarrow>
        (case alloc_props ps h1 of (fs, h2) \<Rightarrow> ((k, v) # fs, h2)))"

text \<open>
  \<^verbatim>\<open>global.config.get (key)\<close>: \<^verbatim>\<open>JSON.parse(JSON.stringify(this.get(key)))\<close>. The
  result is the value and the heap with the new cells.
\<close>

definition global_get :: "heap \<Rightarrow> addr \<Rightarrow> string \<Rightarrow> error + hval \<times> heap" where
  "global_get h root key =
     (case heap_get h root key of
        Inl e \<Rightarrow> Inl e
      | Inr v \<Rightarrow>
          (case freeze h [] v of
             Inl e \<Rightarrow> Inl e
           | Inr t \<Rightarrow> Inr (alloc t h)))"

text \<open>
  The addresses a value and a cell refer to; a heap is closed when every reference in
  it is to one of its cells; \<open>reach h v\<close> are the cells one gets to from \<open>v\<close>.
\<close>

fun refs_val :: "hval \<Rightarrow> addr set" where
  "refs_val (HRef a) = {a}"
| "refs_val v = {}"

fun vals_of :: "cell \<Rightarrow> hval list" where
  "vals_of (Object ps) = map snd ps"
| "vals_of (Array xs) = xs"

definition refs_cell :: "cell \<Rightarrow> addr set" where
  "refs_cell c = (\<Union>v\<in>set (vals_of c). refs_val v)"

definition closed :: "heap \<Rightarrow> bool" where
  "closed h = (\<forall>c\<in>set h. refs_cell c \<subseteq> {..<length h})"

inductive_set reach :: "heap \<Rightarrow> hval \<Rightarrow> addr set" for h :: heap and v :: hval where
  start: "a \<in> refs_val v \<Longrightarrow> a \<in> reach h v"
| step: "a \<in> reach h v \<Longrightarrow> a < length h \<Longrightarrow> b \<in> refs_cell (h ! a) \<Longrightarrow> b \<in> reach h v"

text \<open>A tree without empty slots, as \<^verbatim>\<open>JSON.stringify\<close> writes it.\<close>

fun no_hole :: "json \<Rightarrow> bool" where
  "no_hole JHole = False"
| "no_hole (JArr xs) = (\<forall>x\<in>set xs. no_hole x)"
| "no_hole (JObj ps) = (\<forall>x\<in>snd ` set ps. no_hole x)"
| "no_hole v = True"

subsection \<open>Measures of a merge\<close>

text \<open>
  The number of nested calls one call of \<^verbatim>\<open>update\<close> makes, directly or through its
  nested calls: one for every property of \<open>oldcfg\<close> that \<open>newcfg\<close> owns too and that
  holds an object, and those of the call on that object.
\<close>

fun recursions :: "json \<Rightarrow> props \<Rightarrow> nat" where
  "recursions newcfg [] = 0"
| "recursions newcfg ((prop, v) # rest) =
     (case own_prop newcfg prop of
        None \<Rightarrow> recursions newcfg rest
      | Some nv \<Rightarrow>
          (case v of
             JObj ps \<Rightarrow> Suc (recursions nv ps) + recursions newcfg rest
           | _ \<Rightarrow> recursions newcfg rest))"

text \<open>
  \<open>newcfg\<close> can be merged onto \<open>oldcfg\<close>: wherever the merge visits a property, the
  value on the side of \<open>newcfg\<close> can be asked for its own properties.
\<close>

fun mergeable :: "json \<Rightarrow> props \<Rightarrow> bool" where
  "mergeable newcfg [] = True"
| "mergeable newcfg ((prop, v) # rest) =
     (has_method newcfg \<and>
      (case own_prop newcfg prop of
         None \<Rightarrow> True
       | Some nv \<Rightarrow> (case v of JObj ps \<Rightarrow> mergeable nv ps | _ \<Rightarrow> True)) \<and>
      mergeable newcfg rest)"

text \<open>
  The value the property \<open>k\<close> of \<open>oldcfg\<close>, now \<open>v\<close>, is to have after the merge:
  kept when \<open>newcfg\<close> does not own \<open>k\<close>; merged in turn when \<open>v\<close> is an object;
  replaced by the value of \<open>newcfg\<close> otherwise.
\<close>

definition merged_value :: "json \<Rightarrow> string \<Rightarrow> json \<Rightarrow> json" where
  "merged_value newcfg k v =
     (case own_prop newcfg k of
        None \<Rightarrow> v
      | Some nv \<Rightarrow> (case v of JObj ps \<Rightarrow> JObj (fst (update nv ps)) | _ \<Rightarrow> nv))"

section \<open>Properties\<close>

subsection \<open>The merge\<close>

lemma update_emits:
  "\<forall>ps n. update newcfg oldcfg = (ps, n, None) \<longrightarrow> n = Suc (recursions newcfg oldcfg)"
  and update_loop_emits: "\<forall>ps n. update_loop newcfg old2 = (ps, n, None) \<longrightarrow> n = recursions newcfg old2"
proof (induct newcfg oldcfg and newcfg old2 rule: update_update_loop.induct)
  case (1 newcfg oldcfg)
  then show ?case by (auto split: prod.splits option.splits)
next
  case (2 newcfg)
  then show ?case by simp
next
  case (3 newcfg k v rest)
  then show ?case
    by (auto split: prod.splits option.splits json.splits if_splits)
qed

lemma update_keys:
  "map fst (fst (update newcfg oldcfg)) = map fst oldcfg"
  and update_loop_keys: "map fst (fst (update_loop newcfg old2)) = map fst old2"
proof (induct newcfg oldcfg and newcfg old2 rule: update_update_loop.induct)
  case (1 newcfg oldcfg)
  then show ?case by (auto split: prod.splits option.splits)
next
  case (2 newcfg)
  then show ?case by simp
next
  case (3 newcfg k v rest)
  then show ?case
    by (auto split: prod.splits option.splits json.splits if_splits)
qed

lemma update_loop_map:
  "update_loop newcfg oldcfg = (ps, n, None) \<Longrightarrow>
   ps = map (\<lambda>(k, v). (k, merged_value newcfg k v)) oldcfg"
proof (induction oldcfg arbitrary: ps n)
  case Nil
  then show ?case by simp
next
  case (Cons a oldcfg)
  obtain k v where a: "a = (k, v)" by (cases a)
  from Cons.prems show ?case unfolding a
    by (auto simp: merged_value_def dest!: Cons.IH
        split: prod.splits option.splits json.splits if_splits)
qed

lemma update_err: "snd (snd (update newcfg oldcfg)) = snd (snd (update_loop newcfg oldcfg))"
  by (auto split: prod.splits option.splits)

lemma update_fst: "fst (update newcfg oldcfg) = fst (update_loop newcfg oldcfg)"
  by (auto split: prod.splits option.splits)

lemma update_returns:
  "(snd (snd (update newcfg oldcfg)) = None) = mergeable newcfg oldcfg"
  and update_loop_returns: "(snd (snd (update_loop newcfg old2)) = None) = mergeable newcfg old2"
proof (induct newcfg oldcfg and newcfg old2 rule: update_update_loop.induct)
  case (1 newcfg oldcfg)
  then show ?case by (simp only: update_err)
next
  case (2 newcfg)
  then show ?case by simp
next
  case (3 newcfg k v rest)
  show ?case
  proof (cases "has_method newcfg")
    case False
    then show ?thesis by simp
  next
    case nn: True
    show ?thesis
    proof (cases "own_prop newcfg k")
      case None
      with nn 3(1) show ?thesis by (auto split: prod.splits)
    next
      case (Some nv)
      show ?thesis
      proof (cases "\<exists>ps. v = JObj ps")
        case False
        with nn Some 3(2-6,9) show ?thesis
          by (cases v) (auto simp del: update.simps split: prod.splits)
      next
        case True
        then obtain ps where v: "v = JObj ps" by blast
        obtain ps' n1 e where u: "update nv ps = (ps', n1, e)"
          by (cases "update nv ps") auto
        from 3(7)[OF nn Some v] u have m: "(e = None) = mergeable nv ps" by simp
        show ?thesis
        proof (cases e)
          case None
          with 3(8)[OF nn Some v _ _ _] u nn Some v m show ?thesis
            by (auto simp del: update.simps split: prod.splits)
        next
          case (Some a)
          with u nn \<open>own_prop newcfg k = Some nv\<close> v m show ?thesis
            by (simp del: update.simps)
        qed
      qed
    qed
  qed
qed

lemma update_merged:
  assumes "mergeable newcfg oldcfg"
  shows "fst (update newcfg oldcfg) = map (\<lambda>(k, v). (k, merged_value newcfg k v)) oldcfg"
proof -
  obtain ps n e where u: "update_loop newcfg oldcfg = (ps, n, e)"
    by (cases "update_loop newcfg oldcfg") auto
  with assms update_loop_returns[of newcfg oldcfg] have "e = None" by simp
  with u update_loop_map[of newcfg oldcfg ps n] show ?thesis
    by (simp only: update_fst) simp
qed

lemma load_keys:
  "map fst (config (snd (load parse stringify s))) = map fst (config s)"
proof -
  have "map fst (config (snd (update_config rc s1))) = map fst (config s1)" for rc s1
    using update_keys[of rc "config s1"]
    by (auto simp add: update_config_def split: prod.splits simp del: update.simps)
  then show ?thesis
    by (simp add: load_def Let_def split: option.splits)
qed

subsection \<open>Notifications of a merge\<close>

text \<open>
  Claim C3, as the code has it. \<^verbatim>\<open>this.emit('update')\<close> is the last statement of
  \<^verbatim>\<open>update\<close>, and \<^verbatim>\<open>update\<close> calls itself for every nested object it merges. A
  top-level call that returns therefore emits once for itself and once more for every
  nested call: one notification only when it recurses into no sub-tree.
\<close>

theorem update_emits_per_merged_object:
  assumes "update_config newcfg s = (None, s')"
  shows "emitted s' = emitted s + 1 + recursions newcfg (config s) \<and>
         (emitted s' = emitted s + 1) = (recursions newcfg (config s) = 0)"
proof -
  obtain ps n e where u: "update newcfg (config s) = (ps, n, e)"
    by (cases "update newcfg (config s)") auto
  with assms have e: "e = None" and s': "emitted s' = emitted s + n"
    by (auto simp: update_config_def simp del: update.simps)
  from u e update_emits[of newcfg "config s"] have "n = Suc (recursions newcfg (config s))"
    by simp
  with s' show ?thesis by simp
qed

text \<open>The theorem at a merge that recurses into \<^verbatim>\<open>window\<close>: two notifications.\<close>

theorem update_emits_per_merged_object_witness:
  "update_config (JObj [(''window'', JObj [(''x'', JNum 5)])])
     \<lparr>config = [(''window'', JObj [(''x'', JNum 0), (''y'', JNum 0)]), (''debug'', JBool False)],
      emitted = 0, PATH = [], config_dir = True, config_file = None, dict_dir = True\<rparr>
   = (None,
     \<lparr>config = [(''window'', JObj [(''x'', JNum 5), (''y'', JNum 0)]), (''debug'', JBool False)],
      emitted = 2, PATH = [], config_dir = True, config_file = None, dict_dir = True\<rparr>) \<and>
   recursions (JObj [(''window'', JObj [(''x'', JNum 5)])])
     [(''window'', JObj [(''x'', JNum 0), (''y'', JNum 0)]), (''debug'', JBool False)] = 1"
proof -
  have h: "update_config (JObj [(''window'', JObj [(''x'', JNum 5)])])
     \<lparr>config = [(''window'', JObj [(''x'', JNum 0), (''y'', JNum 0)]), (''debug'', JBool False)],
      emitted = 0, PATH = [], config_dir = True, config_file = None, dict_dir = True\<rparr>
   = (None,
     \<lparr>config = [(''window'', JObj [(''x'', JNum 5), (''y'', JNum 0)]), (''debug'', JBool False)],
      emitted = 2, PATH = [], config_dir = True, config_file = None, dict_dir = True\<rparr>)"
    by (simp add: update_config_def has_method_def nullish_def)
  from update_emits_per_merged_object[OF h] h show ?thesis by simp
qed

text \<open>
  Claim C3 as stated asks for exactly one notification however deep the merge goes. One
  top-level call on a tree with one nested object takes the counter from 0 to 2.
\<close>

theorem update_emits_once_counterexample:
  "update_config (JObj [(''window'', JObj [(''x'', JNum 5)])])
     \<lparr>config = [(''window'', JObj [(''x'', JNum 0), (''y'', JNum 0)]), (''debug'', JBool False)],
      emitted = 0, PATH = [], config_dir = True, config_file = None, dict_dir = True\<rparr>
   = (None,
     \<lparr>config = [(''window'', JObj [(''x'', JNum 5), (''y'', JNum 0)]), (''debug'', JBool False)],
      emitted = 2, PATH = [], config_dir = True, config_file = None, dict_dir = True\<rparr>)"
  by (simp add: update_config_def has_method_def nullish_def)

subsection \<open>The result of a merge\<close>

text \<open>
  Claim C5. \<^verbatim>\<open>update(newTree, oldTree)\<close> keeps the keys of \<open>oldTree\<close>, in their order,
  whatever happens: no key of \<open>oldTree\<close> is lost and no key that only \<open>newTree\<close> has
  is added. It returns without an exception exactly when \<open>newTree\<close> is mergeable, and
  then every key of \<open>oldTree\<close> has its old value if \<open>newTree\<close> does not own the key,
  the merge of the two values if the old value is an object, and the value of
  \<open>newTree\<close> otherwise. \<^verbatim>\<open>load()\<close> on a file that parses leaves the tree that this
  merge of the file onto the template gives, so the tree has the keys of the template.
\<close>

theorem update_merges_recursively:
  "map fst (fst (update newcfg oldcfg)) = map fst oldcfg \<and>
   (snd (snd (update newcfg oldcfg)) = None) = mergeable newcfg oldcfg \<and>
   (mergeable newcfg oldcfg \<longrightarrow>
      fst (update newcfg oldcfg) =
        map (\<lambda>(k, v). (k,
              case own_prop newcfg k of
                None \<Rightarrow> v
              | Some nv \<Rightarrow> (case v of JObj ps \<Rightarrow> JObj (fst (update nv ps)) | _ \<Rightarrow> nv)))
          oldcfg) \<and>
   (config_file s = Some text \<and> parse text = Some readConfig \<longrightarrow>
      config (snd (load parse stringify s)) = fst (update readConfig (config s)) \<and>
      map fst (config (snd (load parse stringify s))) = map fst (config s))"
proof -
  have "config (snd (load parse stringify s)) = fst (update readConfig (config s))"
    if "config_file s = Some text" "parse text = Some readConfig"
    using that
    by (auto simp: load_def update_config_def Let_def simp del: update.simps split: prod.splits)
  then show ?thesis
    using update_keys[of newcfg oldcfg] update_returns[of newcfg oldcfg]
      update_merged[of newcfg oldcfg] load_keys[of parse stringify s]
      update_keys[of readConfig "config s"]
    by (simp del: update.simps add: merged_value_def)
qed

text \<open>
  The theorem at a file tree with a changed scalar, a nested object with a known and an
  unknown key, an object where the template has \<^verbatim>\<open>null\<close>, and an unknown key.
\<close>

theorem update_merges_recursively_witness:
  "mergeable (JObj [(''darkTheme'', JBool True), (''window'', JObj [(''x'', JNum 5), (''z'', JNum 1)]),
               (''lastFile'', JObj [(''a'', JNull)]), (''unknown'', JNum 1)])
     [(''darkTheme'', JBool False), (''window'', JObj [(''x'', JNum 0), (''y'', JNum 0)]),
      (''lastFile'', JNull), (''debug'', JBool False)] \<and>
   update (JObj [(''darkTheme'', JBool True), (''window'', JObj [(''x'', JNum 5), (''z'', JNum 1)]),
               (''lastFile'', JObj [(''a'', JNull)]), (''unknown'', JNum 1)])
     [(''darkTheme'', JBool False), (''window'', JObj [(''x'', JNum 0), (''y'', JNum 0)]),
      (''lastFile'', JNull), (''debug'', JBool False)]
   = ([(''darkTheme'', JBool True), (''window'', JObj [(''x'', JNum 5), (''y'', JNum 0)]),
       (''lastFile'', JObj [(''a'', JNull)]), (''debug'', JBool False)], 2, None)"
  using update_merges_recursively
    [of "JObj [(''darkTheme'', JBool True), (''window'', JObj [(''x'', JNum 5), (''z'', JNum 1)]),
               (''lastFile'', JObj [(''a'', JNull)]), (''unknown'', JNum 1)]"
        "[(''darkTheme'', JBool False), (''window'', JObj [(''x'', JNum 0), (''y'', JNum 0)]),
      (''lastFile'', JNull), (''debug'', JBool False)]"]
  by (simp add: has_method_def nullish_def)

subsection \<open>Loading\<close>

text \<open>
  Claim C1, as the code has it. When \<^verbatim>\<open>config.json\<close> exists and \<^verbatim>\<open>JSON.parse\<close> throws
  on its text, \<^verbatim>\<open>load()\<close> does not abort: the \<^verbatim>\<open>catch\<close> of the block that holds the
  parse writes the serialised template over the file and returns normally. The tree is
  the template, nothing is emitted, and the only other effect is that the directory
  exists.
\<close>

theorem load_unparseable_writes_template:
  assumes "config_file s = Some text" and "parse text = None"
  shows "load parse stringify s =
           (None, s\<lparr>config_dir := True,
                     config_file := Some (stringify (JObj (config s)))\<rparr>)"
  using assms by (simp add: load_def Let_def)

text \<open>The theorem at a template of one key and a file whose text breaks off.\<close>

theorem load_unparseable_writes_template_witness:
  "load (\<lambda>t. if t = ''{}'' then Some (JObj []) else None)
        (\<lambda>v. ''{\"darkTheme\":false}'')
        \<lparr>config = [(''darkTheme'', JBool False)], emitted = 0, PATH = ''/usr/bin'',
         config_dir = True, config_file = Some ''{\"darkTheme\":tru'', dict_dir = False\<rparr>
   = (None,
        \<lparr>config = [(''darkTheme'', JBool False)], emitted = 0, PATH = ''/usr/bin'',
         config_dir = True, config_file = Some ''{\"darkTheme\":false}'', dict_dir = False\<rparr>)"
  using load_unparseable_writes_template
    [of "\<lparr>config = [(''darkTheme'', JBool False)], emitted = 0, PATH = ''/usr/bin'',
         config_dir = True, config_file = Some ''{\"darkTheme\":tru'', dict_dir = False\<rparr>"
        "''{\"darkTheme\":tru''" "\<lambda>t. if t = ''{}'' then Some (JObj []) else None"
        "\<lambda>v. ''{\"darkTheme\":false}''"]
  by simp

text \<open>
  Claim C1 as stated asks for an abort that leaves the user's file alone. At the same
  input \<^verbatim>\<open>load()\<close> returns without an exception and the file holds the template.
\<close>

theorem load_unparseable_counterexample:
  "fst (load (\<lambda>t. if t = ''{}'' then Some (JObj []) else None)
        (\<lambda>v. ''{\"darkTheme\":false}'')
        \<lparr>config = [(''darkTheme'', JBool False)], emitted = 0, PATH = ''/usr/bin'',
         config_dir = True, config_file = Some ''{\"darkTheme\":tru'', dict_dir = False\<rparr>)
     = None \<and>
   config_file (snd (load (\<lambda>t. if t = ''{}'' then Some (JObj []) else None)
        (\<lambda>v. ''{\"darkTheme\":false}'')
        \<lparr>config = [(''darkTheme'', JBool False)], emitted = 0, PATH = ''/usr/bin'',
         config_dir = True, config_file = Some ''{\"darkTheme\":tru'', dict_dir = False\<rparr>))
     = Some ''{\"darkTheme\":false}''"
  by (simp add: load_def)

subsection \<open>Strings\<close>

lemma split_str_nonempty: "split_str d s \<noteq> []"
  by (induction s) (auto split: list.splits)

lemma split_str_0: "nth_opt (split_str d s) 0 = Some (main_part d s)"
  by (induction s) (auto simp: nth_opt_def main_part_def split: list.splits)

lemma split_str_hd: "hd (split_str d s) = takeWhile (\<lambda>c. c \<noteq> d) s"
  by (induction s) (auto simp: split_str_nonempty split: list.splits)

lemma split_str_1: "nth_opt (split_str d s) (Suc 0) = sub_part d s"
proof (induction s)
  case Nil
  then show ?case by (simp add: nth_opt_def sub_part_def)
next
  case (Cons c cs)
  show ?case
  proof (cases "c = d")
    case True
    then show ?thesis
      using split_str_nonempty[of d cs] split_str_hd[of d cs]
      by (cases "split_str d cs") (auto simp: nth_opt_def sub_part_def)
  next
    case False
    with Cons show ?thesis
      by (cases "split_str d cs") (auto simp: nth_opt_def sub_part_def split: if_splits)
  qed
qed

lemma indexOf_mem: "(indexOf s c > - 1) = (c \<in> set s)"
  by (induction s) (auto simp: Let_def)

lemma indexOf_ge: "indexOf s c \<ge> - 1"
  by (induction s) (auto simp: Let_def)

lemma join_split: "join_str d (split_str d s) = s"
proof (induction s)
  case Nil
  then show ?case by simp
next
  case (Cons c cs)
  show ?case
  proof (cases "c = d")
    case True
    with Cons split_str_nonempty[of d cs] show ?thesis
      by (cases "split_str d cs") auto
  next
    case False
    with Cons split_str_nonempty[of d cs] show ?thesis
      by (cases "split_str d cs"; cases "tl (split_str d cs)") auto
  qed
qed

lemma split_no_delim: "x \<in> set (split_str d s) \<Longrightarrow> d \<notin> set x"
  by (induction s arbitrary: x) (auto split: if_splits list.splits)

lemma split_plain: "d \<notin> set x \<Longrightarrow> split_str d x = [x]"
  by (induction x) auto

lemma split_append: "split_str d (s @ d # t) = split_str d s @ split_str d t"
  by (induction s) (auto simp: split_str_nonempty split: list.splits)

lemma split_join:
  "xs \<noteq> [] \<Longrightarrow> \<forall>x\<in>set xs. d \<notin> set x \<Longrightarrow> split_str d (join_str d xs) = xs"
proof (induction d xs rule: join_str.induct)
  case (1 d)
  then show ?case by simp
next
  case (2 d x)
  then show ?case by (simp add: split_plain)
next
  case (3 d x y ys)
  then show ?case by (simp add: split_append split_plain)
qed

lemma contains_iff: "contains s t = (\<exists>a b. s = a @ t @ b)"
proof (induction s)
  case Nil
  then show ?case by auto
next
  case (Cons c cs)
  show ?case
  proof
    assume "contains (c # cs) t"
    then consider "prefix t (c # cs)" | "contains cs t" by auto
    then show "\<exists>a b. c # cs = a @ t @ b"
    proof cases
      case 1
      then obtain b where "c # cs = t @ b" by (auto simp: prefix_def)
      then have "c # cs = [] @ t @ b" by simp
      then show ?thesis by blast
    next
      case 2
      with Cons obtain a b where "cs = a @ t @ b" by blast
      then have "c # cs = (c # a) @ t @ b" by simp
      then show ?thesis by blast
    qed
  next
    assume "\<exists>a b. c # cs = a @ t @ b"
    then obtain a b where ab: "c # cs = a @ t @ b" by blast
    show "contains (c # cs) t"
    proof (cases a)
      case Nil
      with ab have "prefix t (c # cs)" by (auto simp: prefix_def)
      then show ?thesis by simp
    next
      case (Cons a' as)
      with ab have "cs = as @ t @ b" by simp
      with Cons.IH show ?thesis by auto
    qed
  qed
qed

lemma contains_append: "contains s t \<Longrightarrow> contains (s @ u) t"
  by (auto simp: contains_iff) (metis append.assoc)

lemma contains_appended: "contains (s @ d # t) t"
proof -
  have "s @ d # t = (s @ [d]) @ t @ []" by simp
  then show ?thesis unfolding contains_iff by blast
qed


subsection \<open>The locale\<close>

lemma locale_loop_find:
  "locale_loop (Some m) l tags =
     (case find (\<lambda>tag. main_part CHR ''_'' tag = m \<and> (l = None \<or> sub_part CHR ''_'' tag = l)) tags of
        Some tag \<Rightarrow> tag
      | None \<Rightarrow> ''en_US'')"
  by (induction tags) (auto simp: split_str_0 split_str_1 Let_def)

text \<open>
  Claim C7. \<^verbatim>\<open>getLocale\<close> returns the first supported tag that matches the raw
  locale, and \<^verbatim>\<open>en_US\<close> when none does. A tag matches when its main part (before
  \<^verbatim>\<open>_\<close>) is the main part of the raw locale (before \<^verbatim>\<open>-\<close>) and either the raw
  locale has no sub part or the sub part of the tag is that of the raw locale.
\<close>

theorem getLocale_first_match:
  "getLocale raw files user =
     (case find (tag_matches raw) (getSupportedLangs files user) of
        Some tag \<Rightarrow> tag
      | None \<Rightarrow> ''en_US'')"
proof (cases "CHR ''-'' \<in> set raw")
  case True
  then show ?thesis
    unfolding getLocale_def tag_matches_def
    by (simp add: indexOf_mem split_str_0 split_str_1 locale_loop_find)
next
  case False
  then have "main_part CHR ''-'' raw = raw" "sub_part CHR ''-'' raw = None"
    by (auto simp: main_part_def sub_part_def takeWhile_eq_all_conv)
  with False show ?thesis
    unfolding getLocale_def tag_matches_def
    by (simp add: indexOf_mem locale_loop_find)
qed

text \<open>
  The theorem at \<^verbatim>\<open>en-GB\<close>: the tag \<^verbatim>\<open>en_US\<close> has the main part but not the sub part,
  so the loop goes on to \<^verbatim>\<open>en_GB\<close>; without that file the answer is the default.
\<close>

theorem getLocale_first_match_witness:
  "getLocale ''en-GB'' [''de_DE.json'', ''en_US.json'', ''en_GB.json''] None = ''en_GB'' \<and>
   find (tag_matches ''en-GB'')
     (getSupportedLangs [''de_DE.json'', ''en_US.json'', ''en_GB.json''] None) = Some ''en_GB'' \<and>
   getLocale ''en'' [''de_DE.json'', ''en_US.json'', ''en_GB.json''] None = ''en_US'' \<and>
   getLocale ''fr-CA'' [''de_DE.json'', ''en_US.json''] (Some [''fr_FR.json'']) = ''en_US''"
proof -
  have l: "getSupportedLangs [''de_DE.json'', ''en_US.json'', ''en_GB.json''] None
             = [''de_DE'', ''en_US'', ''en_GB'']"
    by code_simp
  have l2: "getSupportedLangs [''de_DE.json'', ''en_US.json''] (Some [''fr_FR.json''])
             = [''de_DE'', ''en_US'', ''fr_FR'']"
    by code_simp
  have f: "find (tag_matches ''en-GB'') [''de_DE'', ''en_US'', ''en_GB''] = Some ''en_GB''"
    by (simp add: tag_matches_def main_part_def sub_part_def)
  have f2: "find (tag_matches ''en'') [''de_DE'', ''en_US'', ''en_GB''] = Some ''en_US''"
    by (simp add: tag_matches_def main_part_def sub_part_def)
  have f3: "find (tag_matches ''fr-CA'') [''de_DE'', ''en_US'', ''fr_FR''] = None"
    by (simp add: tag_matches_def main_part_def sub_part_def)
  from getLocale_first_match[of "''en-GB''" "[''de_DE.json'', ''en_US.json'', ''en_GB.json'']" None]
    getLocale_first_match[of "''en''" "[''de_DE.json'', ''en_US.json'', ''en_GB.json'']" None]
    getLocale_first_match[of "''fr-CA''" "[''de_DE.json'', ''en_US.json'']" "Some [''fr_FR.json'']"]
    l l2 f f2 f3
  show ?thesis by simp
qed


subsection \<open>Translation files\<close>

text \<open>
  Claim C8, where the code departs from it. The test of \<^verbatim>\<open>getSupportedLangs\<close> has no
  anchors, so it passes every name that has a tag and \<^verbatim>\<open>.json\<close> somewhere inside:
  \<^verbatim>\<open>xaaa_AAA.json\<close> (four lowercase letters) and \<^verbatim>\<open>de_DE.json.bak\<close> are taken, the
  latter as the tag \<^verbatim>\<open>de_DE.json\<close>. \<^verbatim>\<open>getDictionaries\<close> anchors the same pattern and
  refuses the like.
\<close>

theorem getSupportedLangs_admits_other_shapes:
  "getSupportedLangs [''en_US.json'', ''xaaa_AAA.json'', ''de_DE.json.bak'', ''readme.txt''] None
     = [''en_US'', ''xaaa_AAA'', ''de_DE.json''] \<and>
   getDictionaries (\<lambda>p. True) (\<lambda>d. True) (\<lambda>d. d) [''en_US'', ''xaaa_AAA'', ''de_DE.bak'']
     (\<lambda>d. d) None = [''en_US'']"
  by code_simp


subsection \<open>Objects\<close>

lemma map_of_assign_key_same: "map_of (assign_key ps k v) k = Some v"
proof -
  have "map_of ps k \<noteq> None \<Longrightarrow>
        map_of (map (\<lambda>(k', v'). if k' = k then (k', v) else (k', v')) ps) k = Some v"
    by (induction ps) (auto split: if_splits)
  then show ?thesis by (auto simp: assign_key_def map_add_def)
qed

lemma map_of_assign_key_other:
  "k' \<noteq> k \<Longrightarrow> map_of (assign_key ps k v) k' = map_of ps k'"
proof -
  assume ne: "k' \<noteq> k"
  have "map_of (map (\<lambda>(k', v'). if k' = k then (k', v) else (k', v')) ps) k' = map_of ps k'"
    using ne by (induction ps) auto
  with ne show ?thesis by (auto simp: assign_key_def map_add_def split: option.splits)
qed

lemma assign_key_idem: "assign_key (assign_key ps k v) k v = assign_key ps k v"
proof -
  have m: "map_of (assign_key ps k v) k \<noteq> None" by (simp add: map_of_assign_key_same)
  have "map (\<lambda>(k', v'). if k' = k then (k', v) else (k', v')) (assign_key ps k v) = assign_key ps k v"
    by (auto simp: assign_key_def map_of_eq_None_iff image_iff intro!: map_idI split: if_splits)
  with m show ?thesis by (subst assign_key_def) simp
qed


subsection \<open>\<^verbatim>\<open>set\<close>\<close>

lemma set_nested_invalid:
  "\<not> validate rules option v \<Longrightarrow>
   set_nested toNumber rules option v cfg nested prop \<noteq> Inr (Some cfg')"
  by (induction nested arbitrary: cfg cfg') (auto split: option.splits sum.splits)

lemma set_option_invalid:
  "\<not> validate rules option v \<Longrightarrow> fst (set_option toNumber rules option v s) \<noteq> Inr True"
  by (auto simp: set_option_def Let_def set_nested_invalid split: sum.splits option.splits)

lemma set_option_unchanged:
  "fst (set_option toNumber rules option v s) \<noteq> Inr True \<Longrightarrow>
   snd (set_option toNumber rules option v s) = s"
  by (auto simp: set_option_def Let_def split: sum.splits option.splits if_splits)

lemma emitted_set_option:
  "emitted (snd (set_option toNumber rules option v s)) =
     (if fst (set_option toNumber rules option v s) = Inr True then Suc (emitted s) else emitted s)"
  by (auto simp: set_option_def Let_def split: sum.splits option.splits)

text \<open>
  Claim C2, where the code departs from it. With the template's \<^verbatim>\<open>lastFile: null\<close>,
  \<^verbatim>\<open>set('lastFile.x', 1)\<close> names a leaf that does not exist; the loop steps into
  \<^verbatim>\<open>null\<close> and \<^verbatim>\<open>cfg.hasOwnProperty(prop)\<close> throws a \<^verbatim>\<open>TypeError\<close> where the claim
  has \<^verbatim>\<open>false\<close> returned. The tree is not touched and nothing is emitted. The lemmas
  above give the rest of the claim: a call that does not return \<^verbatim>\<open>true\<close> leaves the
  state as it was, a rejected value never returns \<^verbatim>\<open>true\<close>, and only \<^verbatim>\<open>true\<close>
  emits, once.
\<close>

theorem set_option_null_parent_throws:
  "set_option (\<lambda>v. None) [] ''lastFile.x'' (JNum 1)
     \<lparr>config = [(''lastFile'', JNull), (''darkTheme'', JBool False)],
      emitted = 0, PATH = [], config_dir = True, config_file = None, dict_dir = True\<rparr>
   = (Inl TypeError,
     \<lparr>config = [(''lastFile'', JNull), (''darkTheme'', JBool False)],
      emitted = 0, PATH = [], config_dir = True, config_file = None, dict_dir = True\<rparr>)"
  by (simp add: set_option_def has_method_def nullish_def Let_def)


subsection \<open>The list of open paths\<close>

lemma prop_of_put_prop: "prop_of (put_prop k v s) k = v"
  by (simp add: prop_of_def put_prop_def map_of_assign_key_same)

lemma prop_of_put_prop_other: "k' \<noteq> k \<Longrightarrow> prop_of (put_prop k v s) k' = prop_of s k'"
  by (simp add: prop_of_def put_prop_def map_of_assign_key_other)

lemma prop_of_dict_dir: "prop_of (s\<lparr>dict_dir := b\<rparr>) k = prop_of s k"
  by (simp add: prop_of_def)

lemma emitted_put_prop: "emitted (put_prop k v s) = emitted s"
  by (simp add: put_prop_def)



lemma strings_of_map: "strings_of (map JStr ps) = Some ps"
  by (induction ps) auto

lemma strings_of_Some: "strings_of xs = Some ps \<Longrightarrow> xs = map JStr ps"
proof (induction xs arbitrary: ps)
  case Nil
  then show ?case by simp
next
  case (Cons x xs)
  then show ?case by (cases x) (auto split: option.splits)
qed

lemma all_strings_map: "\<forall>x\<in>set xs. \<exists>p. x = JStr p \<Longrightarrow> \<exists>ps. xs = map JStr ps"
proof (induction xs)
  case Nil
  then show ?case by simp
next
  case (Cons x xs)
  then obtain p ps where "x = JStr p" and "xs = map JStr ps" by auto
  then have "x # xs = map JStr (p # ps)" by simp
  then show ?case by (rule exI)
qed

lemma open_paths_iff: "open_paths s = Some ps \<longleftrightarrow> prop_of s ''openPaths'' = JArr (map JStr ps)"
  by (auto simp: open_paths_def strings_of_map dest: strings_of_Some split: json.splits)

lemma prune_filter: "prune ok i xs = take i xs @ filter ok (drop i xs)"
proof (induction ok i xs rule: prune.induct)
  case (1 ok i xs)
  show ?case
  proof (cases "i < length xs")
    case False
    then show ?thesis by (subst prune.simps) simp
  next
    case lt: True
    then have d: "drop i xs = xs ! i # drop (Suc i) xs"
      by (simp add: Cons_nth_drop_Suc)
    show ?thesis
    proof (cases "ok (xs ! i)")
      case True
      with lt 1(1) d show ?thesis
        by (subst prune.simps) (simp add: take_Suc_conv_app_nth)
    next
      case False
      with lt 1(2) d show ?thesis
        by (subst prune.simps) (simp add: min_def)
    qed
  qed
qed

lemma uniq_aux:
  "distinct seen \<Longrightarrow>
   distinct (foldl (\<lambda>seen x. if x \<in> set seen then seen else seen @ [x]) seen xs) \<and>
   set (foldl (\<lambda>seen x. if x \<in> set seen then seen else seen @ [x]) seen xs) = set seen \<union> set xs"
  by (induction xs arbitrary: seen) auto

lemma distinct_uniq: "distinct (uniq xs)"
  using uniq_aux[of "[]" xs] by (simp add: uniq_def)

lemma set_uniq: "set (uniq xs) = set xs"
  using uniq_aux[of "[]" xs] by (simp add: uniq_def)

text \<open>On a list of strings the default order of \<^verbatim>\<open>sort()\<close> is the order of the strings.\<close>

lemma insort_key_map:
  "insort_key f (g x) (map g xs) = map g (insort_key (\<lambda>y. f (g y)) x xs)"
  by (induction xs) auto

lemma sort_key_map: "sort_key f (map g xs) = map g (sort_key (\<lambda>y. f (g y)) xs)"
  by (induction xs) (auto simp: insort_key_map)

lemma sort_default_strings: "sort_default (map JStr ps) = Some (map JStr (sort ps))"
proof -
  have a: "filter (\<lambda>v. v \<noteq> JHole) (map JStr ps) = map JStr ps"
    by (rule filter_True) auto
  have b: "filter (\<lambda>v. v = JHole) (map JStr ps) = []"
    by (auto simp: filter_empty_conv)
  have c: "list_all (\<lambda>v. to_text v \<noteq> None) (map JStr ps)"
    by (simp add: list_all_iff)
  have d: "sort_key text_key (map JStr ps) = map JStr (sort ps)"
    by (simp add: sort_key_map text_key_def)
  show ?thesis
    unfolding sort_default_def Let_def a b d using c by simp
qed

lemma sortPaths_strings:
  assumes "open_paths s = Some ps"
  shows "sortPaths isDir s =
    (None, put_prop ''openPaths''
       (JArr (map JStr (sort (filter (\<lambda>p. \<not> isDir (JStr p)) ps) @
                        sort (filter (\<lambda>p. isDir (JStr p)) ps)))) s)"
proof -
  have p: "prop_of s ''openPaths'' = JArr (map JStr ps)"
    using assms by (simp add: open_paths_iff)
  have f: "filter (\<lambda>p. \<not> isDir p) (map JStr ps) = map JStr (filter (\<lambda>p. \<not> isDir (JStr p)) ps)"
    by (simp add: filter_map comp_def)
  have d: "filter isDir (map JStr ps) = map JStr (filter (\<lambda>p. isDir (JStr p)) ps)"
    by (simp add: filter_map comp_def)
  show ?thesis
    by (simp add: sortPaths_def p f d sort_default_strings)
qed

lemma open_paths_put_prop: "open_paths (put_prop ''openPaths'' (JArr (map JStr ps)) s) = Some ps"
  by (simp add: open_paths_iff prop_of_put_prop)

lemma sorted_groups_ordered:
  "paths_ordered isDir (sort (filter (\<lambda>p. \<not> isDir (JStr p)) ps) @
                        sort (filter (\<lambda>p. isDir (JStr p)) ps))"
proof -
  let ?f = "filter (\<lambda>p. \<not> isDir (JStr p)) ps" and ?d = "filter (\<lambda>p. isDir (JStr p)) ps"
  have a: "filter (\<lambda>p. \<not> isDir (JStr p)) (sort ?f) = sort ?f"
    by (rule filter_True) simp
  have b: "filter (\<lambda>p. \<not> isDir (JStr p)) (sort ?d) = []"
    by (simp add: filter_empty_conv)
  have c: "filter (\<lambda>p. isDir (JStr p)) (sort ?f) = []"
    by (simp add: filter_empty_conv)
  have d: "filter (\<lambda>p. isDir (JStr p)) (sort ?d) = sort ?d"
    by (rule filter_True) simp
  show ?thesis
    unfolding paths_ordered_def by (simp add: a b c d)
qed

lemma distinct_filter_parts:
  "distinct (filter P xs) \<and> distinct (filter (\<lambda>x. \<not> P x) xs) \<longleftrightarrow> distinct xs"
proof (induction xs)
  case Nil
  show ?case by simp
next
  case (Cons x xs)
  show ?case
  proof (cases "P x")
    case True
    then have "distinct (filter P (x # xs)) \<and> distinct (filter (\<lambda>x. \<not> P x) (x # xs)) \<longleftrightarrow>
        x \<notin> set xs \<and> (distinct (filter P xs) \<and> distinct (filter (\<lambda>x. \<not> P x) xs))"
      by (simp del: distinct_filter; blast)
    then show ?thesis by (simp only: Cons.IH distinct.simps)
  next
    case False
    then have "distinct (filter P (x # xs)) \<and> distinct (filter (\<lambda>x. \<not> P x) (x # xs)) \<longleftrightarrow>
        x \<notin> set xs \<and> (distinct (filter P xs) \<and> distinct (filter (\<lambda>x. \<not> P x) xs))"
      by (simp del: distinct_filter; blast)
    then show ?thesis by (simp only: Cons.IH distinct.simps)
  qed
qed

lemma sorted_groups_distinct:
  "distinct (sort (filter (\<lambda>p. \<not> isDir (JStr p)) ps) @ sort (filter (\<lambda>p. isDir (JStr p)) ps))
     \<longleftrightarrow> distinct ps"
proof -
  let ?f = "filter (\<lambda>p. \<not> isDir (JStr p)) ps" and ?d = "filter (\<lambda>p. isDir (JStr p)) ps"
  have "set (sort ?f) \<inter> set (sort ?d) = {}" by auto
  then have "distinct (sort ?f @ sort ?d) \<longleftrightarrow> distinct ?d \<and> distinct ?f"
    by (simp only: distinct_append distinct_sort; blast)
  also have "\<dots> \<longleftrightarrow> distinct ps"
    by (rule distinct_filter_parts)
  finally show ?thesis .
qed

lemma sorted_groups_set:
  "set (sort (filter (\<lambda>p. \<not> isDir (JStr p)) ps) @ sort (filter (\<lambda>p. isDir (JStr p)) ps)) = set ps"
  by auto



text \<open>
  \<^verbatim>\<open>_sortPaths\<close> on a list of paths: it returns, the list is in order, and it has an
  entry twice exactly when it had one before.
\<close>

lemma sortPaths_ok:
  assumes "open_paths s = Some ps"
  shows "fst (sortPaths isDir s) = None \<and>
         (\<exists>qs. open_paths (snd (sortPaths isDir s)) = Some qs \<and>
               paths_ordered isDir qs \<and> set qs = set ps \<and> (distinct qs \<longleftrightarrow> distinct ps))"
proof -
  let ?qs = "sort (filter (\<lambda>p. \<not> isDir (JStr p)) ps) @ sort (filter (\<lambda>p. isDir (JStr p)) ps)"
  have "fst (sortPaths isDir s) = None"
    and "open_paths (snd (sortPaths isDir s)) = Some ?qs"
    unfolding sortPaths_strings[OF assms] by (simp_all only: fst_conv snd_conv open_paths_put_prop)
  moreover have "paths_ordered isDir ?qs" by (rule sorted_groups_ordered)
  moreover have "set ?qs = set ps" by (rule sorted_groups_set)
  moreover have "distinct ?qs \<longleftrightarrow> distinct ps" by (rule sorted_groups_distinct)
  ultimately show ?thesis by blast
qed









text \<open>
  The first loop and the removal of duplicates of \<^verbatim>\<open>checkPaths\<close>: what gets past them
  is a list of strings, each a path that exists.
\<close>

lemma prune_paths_strings:
  assumes "prune_paths exists x = Some x'" and "iterate x' = Some zs"
  shows "\<forall>z\<in>set zs. \<exists>p. z = JStr p"
proof (cases x)
  case (JArr xs)
  with assms have "zs = filter (lstat_ok exists) xs"
    by (auto simp: prune_filter)
  then show ?thesis
    by (auto simp: lstat_ok_def split: json.splits)
next
  case (JStr t)
  with assms show ?thesis
    by (auto split: if_splits)
qed (use assms in auto)

lemma checkPaths_past_list:
  assumes "prune_paths exists (prop_of s ''openPaths'') = Some x" and "iterate x = Some zs"
  shows "\<exists>ps. uniq zs = map JStr ps \<and> distinct ps \<and>
           open_paths (snd (checkPaths toNumber exists isDir isDictAvailable s)) =
             Some (sort (filter (\<lambda>p. \<not> isDir (JStr p)) ps) @
                   sort (filter (\<lambda>p. isDir (JStr p)) ps))"
proof -
  let ?s1 = "s\<lparr>dict_dir := True\<rparr>"
  have "\<forall>z\<in>set (uniq zs). \<exists>p. z = JStr p"
    using prune_paths_strings[OF assms] by (simp add: set_uniq)
  then obtain ps where ps: "uniq zs = map JStr ps"
    using all_strings_map by blast
  have dist: "distinct ps"
    using distinct_uniq[of zs] by (simp add: ps distinct_map)
  let ?qs = "sort (filter (\<lambda>p. \<not> isDir (JStr p)) ps) @ sort (filter (\<lambda>p. isDir (JStr p)) ps)"
  let ?s2 = "put_prop ''openPaths'' (JArr (map JStr ps)) ?s1"
  let ?s3 = "put_prop ''openPaths'' (JArr (map JStr ?qs)) ?s2"
  have s3: "sortPaths isDir ?s2 = (None, ?s3)"
    by (rule sortPaths_strings) (rule open_paths_put_prop)
  have o3: "open_paths ?s3 = Some ?qs"
    by (rule open_paths_put_prop)
  have o4: "open_paths (put_prop ''selectedDicts'' y ?s3) = Some ?qs" for y
    using o3 by (simp add: open_paths_def prop_of_put_prop_other)
  have "open_paths (snd (checkPaths toNumber exists isDir isDictAvailable s)) = Some ?qs"
    using assms s3 o3 o4
    by (simp add: checkPaths_def Let_def prop_of_dict_dir ps split: option.splits)
  with ps dist show ?thesis by blast
qed



text \<open>
  Where there is no list to go through (\<^verbatim>\<open>null\<close>, a number, an object that is not an
  array, a string with a character that is no path), \<^verbatim>\<open>checkPaths\<close> ends with the
  exception and leaves the tree as it is.
\<close>

lemma checkPaths_no_list:
  assumes "\<forall>x. prune_paths exists (prop_of s ''openPaths'') = Some x \<longrightarrow> iterate x = None"
  shows "checkPaths toNumber exists isDir isDictAvailable s = (Some TypeError, s\<lparr>dict_dir := True\<rparr>)"
  using assms
  by (auto simp: checkPaths_def Let_def prop_of_dict_dir split: option.splits)

text \<open>The pruning pass keeps exactly the entries that are paths that exist.\<close>

lemma checkPaths_keeps_existing:
  assumes "prop_of s ''openPaths'' = JArr xs"
  shows "\<exists>ps. open_paths (snd (checkPaths toNumber exists isDir isDictAvailable s)) = Some ps \<and>
               set ps = {p. JStr p \<in> set xs \<and> exists p}"
proof -
  have a: "prune_paths exists (prop_of s ''openPaths'') = Some (JArr (prune (lstat_ok exists) 0 xs))"
    using assms by simp
  have b: "iterate (JArr (prune (lstat_ok exists) 0 xs)) = Some (prune (lstat_ok exists) 0 xs)"
    by simp
  from checkPaths_past_list[OF a b, of toNumber isDir isDictAvailable]
  obtain ps where ps: "uniq (prune (lstat_ok exists) 0 xs) = map JStr ps"
    and o: "open_paths (snd (checkPaths toNumber exists isDir isDictAvailable s)) =
             Some (sort (filter (\<lambda>p. \<not> isDir (JStr p)) ps) @
                   sort (filter (\<lambda>p. isDir (JStr p)) ps))"
    by blast
  have img: "JStr ` set ps = {x \<in> set xs. lstat_ok exists x}"
    using arg_cong[OF ps, of set] by (simp add: set_uniq prune_filter)
  have "set ps = {p. JStr p \<in> set xs \<and> exists p}"
  proof (intro set_eqI iffI)
    fix p
    assume "p \<in> set ps"
    then have "JStr p \<in> JStr ` set ps" by simp
    then have "JStr p \<in> set xs \<and> lstat_ok exists (JStr p)" unfolding img by simp
    then show "p \<in> {p. JStr p \<in> set xs \<and> exists p}" by (simp add: lstat_ok_def)
  next
    fix p
    assume "p \<in> {p. JStr p \<in> set xs \<and> exists p}"
    then have "JStr p \<in> {x \<in> set xs. lstat_ok exists x}" by (simp add: lstat_ok_def)
    then have "JStr p \<in> JStr ` set ps" unfolding img .
    then show "p \<in> set ps" by auto
  qed
  with o sorted_groups_set[of isDir ps] show ?thesis
    by auto
qed






subsection \<open>Notifications\<close>

lemma emitted_sortPaths: "sortPaths isDir s = (e, s') \<Longrightarrow> emitted s' = emitted s"
  by (auto simp: sortPaths_def emitted_put_prop split: option.splits)

lemma emitted_addPath: "emitted (snd (addPath ignoreFile isDir p s)) = emitted s"
proof (cases "sortPaths isDir (put_prop ''openPaths''
    (JArr ((case prop_of s ''openPaths'' of JArr xs \<Rightarrow> xs | _ \<Rightarrow> []) @ [JStr p])) s)")
  case (Pair e s')
  from emitted_sortPaths[OF Pair] have "emitted s' = emitted s"
    by (simp add: emitted_put_prop)
  with Pair show ?thesis
    by (auto simp: addPath_def split: json.splits option.splits)
qed

lemma emitted_removePath: "emitted (snd (removePath p s)) = emitted s"
  by (simp add: removePath_def emitted_put_prop split: json.splits)

lemma emitted_checkPaths:
  "emitted (snd (checkPaths toNumber exists isDir isDictAvailable s)) = emitted s"
  by (auto simp: checkPaths_def Let_def emitted_put_prop dest!: emitted_sortPaths
      split: option.splits prod.splits)

lemma emitted_update_config:
  "fst (update_config newcfg s) = None \<Longrightarrow> emitted s < emitted (snd (update_config newcfg s))"
  by (auto simp: update_config_def split: prod.splits option.splits)

text \<open>
  Claim C10. \<^verbatim>\<open>addPath\<close>, \<^verbatim>\<open>removePath\<close> and \<^verbatim>\<open>checkPaths\<close> leave the count of
  \<^verbatim>\<open>'update'\<close> events as it is, whatever they do to the list. \<^verbatim>\<open>set\<close> emits once
  when it returns \<^verbatim>\<open>true\<close> and not otherwise, and an \<^verbatim>\<open>update\<close> that returns has
  emitted.
\<close>

theorem no_update_event_from_path_operations:
  "emitted (snd (addPath ignoreFile isDir p s)) = emitted s \<and>
   emitted (snd (removePath p s)) = emitted s \<and>
   emitted (snd (checkPaths toNumber exists isDir isDictAvailable s)) = emitted s \<and>
   emitted (snd (set_option toNumber rules option v s)) =
     (if fst (set_option toNumber rules option v s) = Inr True
      then Suc (emitted s) else emitted s) \<and>
   (fst (update_config newcfg s) = None \<longrightarrow>
      emitted s < emitted (snd (update_config newcfg s)))"
  using emitted_addPath emitted_removePath emitted_checkPaths emitted_set_option
    emitted_update_config
  by blast

text \<open>
  The theorem at a state where \<^verbatim>\<open>addPath\<close> extends the list and a \<^verbatim>\<open>set\<close> of
  \<^verbatim>\<open>darkTheme\<close> succeeds.
\<close>

theorem no_update_event_from_path_operations_witness:
  "snd (addPath (\<lambda>p. False) (\<lambda>p. False) ''/a/b.md''
     \<lparr>config = [(''openPaths'', JArr []), (''darkTheme'', JBool False)],
      emitted = 3, PATH = [], config_dir = True, config_file = None, dict_dir = True\<rparr>)
   = \<lparr>config = [(''openPaths'', JArr [JStr ''/a/b.md'']), (''darkTheme'', JBool False)],
      emitted = 3, PATH = [], config_dir = True, config_file = None, dict_dir = True\<rparr> \<and>
   set_option (\<lambda>v. None) [] ''darkTheme'' (JBool True)
     \<lparr>config = [(''openPaths'', JArr []), (''darkTheme'', JBool False)],
      emitted = 3, PATH = [], config_dir = True, config_file = None, dict_dir = True\<rparr>
   = (Inr True,
      \<lparr>config = [(''openPaths'', JArr []), (''darkTheme'', JBool True)],
      emitted = 4, PATH = [], config_dir = True, config_file = None, dict_dir = True\<rparr>) \<and>
   fst (update_config (JObj [])
     \<lparr>config = [(''openPaths'', JArr []), (''darkTheme'', JBool False)],
      emitted = 3, PATH = [], config_dir = True, config_file = None, dict_dir = True\<rparr>) = None"
  using no_update_event_from_path_operations
    [where ignoreFile = "\<lambda>p. False" and isDir = "\<lambda>p. False" and p = "''/a/b.md''"
       and s = "\<lparr>config = [(''openPaths'', JArr []), (''darkTheme'', JBool False)],
          emitted = 3, PATH = [], config_dir = True, config_file = None, dict_dir = True\<rparr>"
       and toNumber = "\<lambda>v. None" and rules = "[]" and option = "''darkTheme''"
       and v = "JBool True" and newcfg = "JObj []"]
  by (simp add: addPath_def prop_of_def put_prop_def sortPaths_def sort_default_def text_key_def
      assign_key_def set_option_def validate_def update_config_def has_method_def nullish_def)



subsection \<open>The search path\<close>

lemma add_paths_mono: "set L \<subseteq> set (add_paths L xs)"
proof (induction xs arbitrary: L)
  case Nil
  then show ?case by simp
next
  case (Cons x xs)
  let ?L = "if x \<notin> set L \<and> other_form x \<notin> set L then L @ [x] else L"
  have "set L \<subseteq> set ?L" by auto
  also have "\<dots> \<subseteq> set (add_paths ?L xs)" by (rule Cons.IH)
  finally show ?case by simp
qed

lemma add_paths_covered: "covered (add_paths L xs) xs"
proof (induction xs arbitrary: L)
  case Nil
  then show ?case by (simp add: covered_def)
next
  case (Cons x xs)
  let ?L = "if x \<notin> set L \<and> other_form x \<notin> set L then L @ [x] else L"
  have "x \<in> set ?L \<or> other_form x \<in> set ?L" by auto
  with add_paths_mono[of ?L xs] have "x \<in> set (add_paths ?L xs) \<or> other_form x \<in> set (add_paths ?L xs)"
    by blast
  with Cons[of ?L] show ?case by (simp add: covered_def)
qed

lemma add_paths_id: "covered L xs \<Longrightarrow> add_paths L xs = L"
  by (induction xs arbitrary: L) (auto simp: covered_def)

lemma add_paths_nonempty: "L \<noteq> [] \<Longrightarrow> add_paths L xs \<noteq> []"
  using add_paths_mono[of L xs] by (cases L) auto

lemma add_paths_subset: "set (add_paths L xs) \<subseteq> set L \<union> set xs"
proof (induction xs arbitrary: L)
  case Nil
  then show ?case by simp
next
  case (Cons x xs)
  let ?L = "if x \<notin> set L \<and> other_form x \<notin> set L then L @ [x] else L"
  have "set (add_paths ?L xs) \<subseteq> set ?L \<union> set xs" by (rule Cons.IH)
  also have "\<dots> \<subseteq> set L \<union> set (x # xs)" by auto
  finally show ?case by simp
qed



lemma add_paths_fixed:
  assumes nd: "\<forall>x\<in>set extra. d \<notin> set x"
    and u: "u = [] \<or> (\<exists>t. u = d # t)"
  shows "join_str d (add_paths (split_str d (join_str d (add_paths (split_str d P) extra) @ u)) extra)
           = join_str d (add_paths (split_str d P) extra) @ u"
proof -
  let ?L = "add_paths (split_str d P) extra"
  have ne: "?L \<noteq> []" by (rule add_paths_nonempty) (rule split_str_nonempty)
  have "x \<in> set ?L \<Longrightarrow> d \<notin> set x" for x
  proof -
    assume "x \<in> set ?L"
    then have "x \<in> set (split_str d P) \<or> x \<in> set extra"
      using add_paths_subset[of "split_str d P" extra] by auto
    with nd show ?thesis by (auto dest: split_no_delim)
  qed
  then have sj: "split_str d (join_str d ?L) = ?L"
    using ne by (intro split_join) auto
  have cov: "covered (split_str d (join_str d (add_paths (split_str d P) extra) @ u)) extra"
  proof -
    from u show ?thesis
    proof
      assume "u = []"
      then show ?thesis using add_paths_covered[of "split_str d P" extra]
        by (simp add: sj)
    next
      assume "\<exists>t. u = d # t"
      then obtain t where "u = d # t" by blast
      then have "split_str d (join_str d (add_paths (split_str d P) extra) @ u) = ?L @ split_str d t"
        by (simp add: split_append sj)
      with add_paths_covered[of "split_str d P" extra] show ?thesis
        by (auto simp: covered_def)
    qed
  qed
  show ?thesis
    by (simp add: add_paths_id[OF cov] join_split)
qed

lemma get_plain:
  assumes "attr \<noteq> []" and "CHR ''.'' \<notin> set attr"
    and "map_of (config s2) attr = map_of (config s) attr"
    and "map_of (config s2) ''hasOwnProperty'' = map_of (config s) ''hasOwnProperty''"
  shows "get attr s2 = get attr s"
proof -
  have "\<not> indexOf attr CHR ''.'' > 0"
    using indexOf_mem[of attr "CHR ''.''"] indexOf_ge[of attr "CHR ''.''"] assms(2) by auto
  with assms show ?thesis by (simp add: get_def has_method_def nullish_def)
qed

lemma get_config: "config s2 = config s \<Longrightarrow> get attr s2 = get attr s"
  by (simp add: get_def)

lemma add_tool_dir_config: "add_tool_dir dirname d tool s = (e, s1) \<Longrightarrow> config s1 = config s"
  by (auto simp: add_tool_dir_def split: sum.splits json.splits if_splits)

lemma add_tool_dir_PATH:
  "add_tool_dir dirname d tool s = (e, s1) \<Longrightarrow> PATH s1 = PATH s \<or> (\<exists>t. PATH s1 = PATH s @ d # t)"
  by (auto simp: add_tool_dir_def split: sum.splits json.splits if_splits)

lemma add_tool_dir_again:
  assumes r: "add_tool_dir dirname d tool s = (e, s1)"
    and g: "get tool s2 = get tool s"
    and path: "\<exists>u. PATH s2 = PATH s1 @ u"
  shows "add_tool_dir dirname d tool s2 = (e, s2)"
proof -
  from path obtain u where u: "PATH s2 = PATH s1 @ u" by blast
  show ?thesis
  proof (cases "get tool s")
    case (Inl a)
    with r g show ?thesis by (simp add: add_tool_dir_def)
  next
    case (Inr v)
    show ?thesis
    proof (cases "\<exists>p. v = JStr p")
      case False
      with r g Inr show ?thesis by (cases v) (auto simp: add_tool_dir_def)
    next
      case True
      then obtain p where v: "v = JStr p" by blast
      show ?thesis
      proof (cases "length (dirname p) > 0")
        case False
        with r g Inr v show ?thesis by (auto simp: add_tool_dir_def)
      next
        case True
        have "contains (PATH s1) (dirname p)"
          using r Inr v True
          by (auto simp: add_tool_dir_def contains_appended split: if_splits)
        then have "contains (PATH s2) (dirname p)"
          unfolding u by (rule contains_append)
        with r g Inr v True show ?thesis
          by (auto simp: add_tool_dir_def split: if_splits)
      qed
    qed
  qed
qed

lemma add_additional_again:
  assumes nd: "\<forall>x\<in>set extra. d \<notin> set x"
    and p: "PATH s' = PATH (add_additional d extra s) @ u"
    and u: "u = [] \<or> (\<exists>t. u = d # t)"
  shows "add_additional d extra s' = s'"
proof (cases "length extra > 0")
  case False
  then show ?thesis by (simp add: add_additional_def)
next
  case True
  with p have "PATH s' = join_str d (add_paths (split_str d (PATH s)) extra) @ u"
    by (simp add: add_additional_def)
  with add_paths_fixed[OF nd u, of "PATH s"] have "join_str d (add_paths (split_str d (PATH s')) extra) = PATH s'"
    by simp
  with True show ?thesis by (simp add: add_additional_def)
qed


lemma checkSystem_again:
  assumes nd: "\<forall>x\<in>set (additional_paths pf data). delim pf \<notin> set x"
  shows "checkSystem pf data dirname uuid (snd (checkSystem pf data dirname uuid s)) =
         checkSystem pf data dirname uuid s"
proof -
  let ?d = "delim pf" and ?extra = "additional_paths pf data"
  let ?s1 = "add_additional ?d ?extra s"
  have c1: "config ?s1 = config s" by (simp add: add_additional_def)
  obtain e2 s2 where x: "add_tool_dir dirname ?d ''xelatex'' ?s1 = (e2, s2)"
    by (cases "add_tool_dir dirname ?d ''xelatex'' ?s1") auto
  note c2 = add_tool_dir_config[OF x] and p2 = add_tool_dir_PATH[OF x]
  have again1: "add_additional ?d ?extra s' = s'"
    if "PATH s' = PATH ?s1 @ u" "u = [] \<or> (\<exists>t. u = ?d # t)" for s' u
    using add_additional_again[OF nd that] .
  have xagain: "add_tool_dir dirname ?d ''xelatex'' s' = (e2, s')"
    if "get ''xelatex'' s' = get ''xelatex'' s"
       "\<exists>u. PATH s' = PATH s2 @ u" for s'
    using add_tool_dir_again[OF x _ that(2)] that(1) get_config[OF c1] by simp
  show ?thesis
  proof (cases e2)
    case (Some e)
    with x have r: "checkSystem pf data dirname uuid s = (Some e, s2)"
      by (simp add: checkSystem_def)
    from p2 have "\<exists>u. PATH s2 = PATH ?s1 @ u \<and> (u = [] \<or> (\<exists>t. u = ?d # t))" by auto
    then have a: "add_additional ?d ?extra s2 = s2" using again1 by blast
    have "add_tool_dir dirname ?d ''xelatex'' s2 = (e2, s2)"
      using xagain[of s2] get_config[of s2 s] c2 c1 by simp
    with a Some show ?thesis
      by (simp add: r) (simp add: checkSystem_def)
  next
    case None
    obtain e3 s3 where y: "add_tool_dir dirname ?d ''pandoc'' s2 = (e3, s3)"
      by (cases "add_tool_dir dirname ?d ''pandoc'' s2") auto
    note c3 = add_tool_dir_config[OF y] and p3 = add_tool_dir_PATH[OF y]
    have yagain: "add_tool_dir dirname ?d ''pandoc'' s' = (e3, s')"
      if "get ''pandoc'' s' = get ''pandoc'' s"
         "\<exists>u. PATH s' = PATH s3 @ u" for s'
      using add_tool_dir_again[OF y _ that(2)] that(1) get_config[of s2 s] c1 c2 by simp
    from p2 p3 have p13: "\<exists>u. PATH s3 = PATH ?s1 @ u \<and> (u = [] \<or> (\<exists>t. u = ?d # t))"
      by auto
    from p3 have p23: "\<exists>u. PATH s3 = PATH s2 @ u" by auto
    let ?s4 = "if falsy (map_of (config s3) ''uuid'')
               then s3\<lparr>config := assign_key (config s3) ''uuid'' (JStr uuid)\<rparr> else s3"
    have p4: "PATH ?s4 = PATH s3" by simp
    have cx: "get ''xelatex'' ?s4 = get ''xelatex'' s"
      by (rule get_plain) (use c1 c2 c3 in \<open>simp_all add: map_of_assign_key_other\<close>)
    have cy: "get ''pandoc'' ?s4 = get ''pandoc'' s"
      by (rule get_plain) (use c1 c2 c3 in \<open>simp_all add: map_of_assign_key_other\<close>)
    have u4: "(if falsy (map_of (config ?s4) ''uuid'')
               then ?s4\<lparr>config := assign_key (config ?s4) ''uuid'' (JStr uuid)\<rparr> else ?s4) = ?s4"
      by (simp add: assign_key_idem map_of_assign_key_same)
    show ?thesis
    proof (cases e3)
      case (Some e)
      with x y None have r: "checkSystem pf data dirname uuid s = (Some e, s3)"
        by (simp add: checkSystem_def)
      have a: "add_additional ?d ?extra s3 = s3" using again1 p13 by blast
      have b: "add_tool_dir dirname ?d ''xelatex'' s3 = (e2, s3)"
        using xagain[of s3] get_config[of s3 s] c1 c2 c3 p23 by simp
      have c: "add_tool_dir dirname ?d ''pandoc'' s3 = (e3, s3)"
        using yagain[of s3] get_config[of s3 s] c1 c2 c3 by simp
      from a b c None Some show ?thesis
        by (simp add: r) (simp add: checkSystem_def)
    next
      case e3None: None
      with x y None have r: "checkSystem pf data dirname uuid s = (None, ?s4)"
        by (simp add: checkSystem_def)
      have a: "add_additional ?d ?extra ?s4 = ?s4"
        using again1[of ?s4] p13 p4 by metis
      have b: "add_tool_dir dirname ?d ''xelatex'' ?s4 = (e2, ?s4)"
        using xagain[OF cx] p23 p4 by metis
      have c: "add_tool_dir dirname ?d ''pandoc'' ?s4 = (e3, ?s4)"
        using yagain[OF cy] p4 by (metis append_Nil2)
      have "checkSystem pf data dirname uuid ?s4 = (None, ?s4)"
        unfolding checkSystem_def[of pf data dirname uuid ?s4] a
        using b c None e3None u4 by simp
      with r show ?thesis by simp
    qed
  qed
qed

text \<open>
  Claim C9. An additional path names a directory of the search path, so it does not
  hold the separator. Then a second run of \<^verbatim>\<open>checkSystem\<close> changes nothing: it ends as
  the first did and leaves the state, and so the search path, as the first left it.
\<close>

theorem checkSystem_twice_same_PATH:
  assumes "\<forall>x\<in>set (additional_paths pf data). delim pf \<notin> set x"
  shows "PATH (snd (checkSystem pf data dirname uuid (snd (checkSystem pf data dirname uuid s))))
           = PATH (snd (checkSystem pf data dirname uuid s)) \<and>
         checkSystem pf data dirname uuid (snd (checkSystem pf data dirname uuid s))
           = checkSystem pf data dirname uuid s"
  using checkSystem_again[OF assms, of dirname uuid s] by simp

text \<open>
  The theorem on Linux with two additional paths, one of them in the search path in its
  other form, and the directories of the two executables: the first run adds three
  entries, the second none.
\<close>

theorem checkSystem_twice_same_PATH_witness:
  "PATH (snd (checkSystem Linux
       \<lparr>win32 = [], linux = [''/usr/local/bin'', ''/opt/tex/''], macos = []\<rparr>
       (\<lambda>p. if p = ''/opt/pandoc/bin/pandoc'' then ''/opt/pandoc/bin'' else ''.'') ''id''
       \<lparr>config = [(''pandoc'', JStr ''/opt/pandoc/bin/pandoc''), (''xelatex'', JStr ''xelatex''),
                  (''uuid'', JNull)],
        emitted = 0, PATH = ''/usr/bin:/opt/tex'', config_dir = True, config_file = None,
        dict_dir = True\<rparr>))
     = ''/usr/bin:/opt/tex:/usr/local/bin:.:/opt/pandoc/bin'' \<and>
   PATH (snd (checkSystem Linux
       \<lparr>win32 = [], linux = [''/usr/local/bin'', ''/opt/tex/''], macos = []\<rparr>
       (\<lambda>p. if p = ''/opt/pandoc/bin/pandoc'' then ''/opt/pandoc/bin'' else ''.'') ''id''
       (snd (checkSystem Linux
       \<lparr>win32 = [], linux = [''/usr/local/bin'', ''/opt/tex/''], macos = []\<rparr>
       (\<lambda>p. if p = ''/opt/pandoc/bin/pandoc'' then ''/opt/pandoc/bin'' else ''.'') ''id''
       \<lparr>config = [(''pandoc'', JStr ''/opt/pandoc/bin/pandoc''), (''xelatex'', JStr ''xelatex''),
                  (''uuid'', JNull)],
        emitted = 0, PATH = ''/usr/bin:/opt/tex'', config_dir = True, config_file = None,
        dict_dir = True\<rparr>))))
     = ''/usr/bin:/opt/tex:/usr/local/bin:.:/opt/pandoc/bin''"
proof -
  let ?data = "\<lparr>win32 = [], linux = [''/usr/local/bin'', ''/opt/tex/''], macos = []\<rparr>"
  let ?dn = "\<lambda>p. if p = ''/opt/pandoc/bin/pandoc'' then ''/opt/pandoc/bin'' else ''.''"
  let ?s = "\<lparr>config = [(''pandoc'', JStr ''/opt/pandoc/bin/pandoc''), (''xelatex'', JStr ''xelatex''),
                  (''uuid'', JNull)],
        emitted = 0, PATH = ''/usr/bin:/opt/tex'', config_dir = True, config_file = None,
        dict_dir = True\<rparr>"
  have h: "\<forall>x\<in>set (additional_paths Linux ?data). delim Linux \<notin> set x"
    by (simp add: additional_paths_def delim_def)
  have r: "PATH (snd (checkSystem Linux ?data ?dn ''id'' ?s))
             = ''/usr/bin:/opt/tex:/usr/local/bin:.:/opt/pandoc/bin''"
    by (simp add: checkSystem_def add_additional_def additional_paths_def delim_def
        add_tool_dir_def get_def other_form_def has_method_def nullish_def)
  from checkSystem_twice_same_PATH[OF h, of ?dn "''id''" ?s] r show ?thesis by simp
qed

text \<open>
  The hypothesis is needed. An additional path that holds the separator is split into
  two entries when the search path is read again, so the second run does not find it
  and adds it once more.
\<close>

lemma checkSystem_separator_in_additional_path:
  "PATH (snd (checkSystem Linux \<lparr>win32 = [], linux = [''/a:/b''], macos = []\<rparr> (\<lambda>p. ''.'') ''id''
       \<lparr>config = [(''pandoc'', JStr ''pandoc''), (''xelatex'', JStr ''xelatex'')],
        emitted = 0, PATH = ''/usr/bin'', config_dir = True, config_file = None,
        dict_dir = True\<rparr>))
     = ''/usr/bin:/a:/b:.'' \<and>
   PATH (snd (checkSystem Linux \<lparr>win32 = [], linux = [''/a:/b''], macos = []\<rparr> (\<lambda>p. ''.'') ''id''
       (snd (checkSystem Linux \<lparr>win32 = [], linux = [''/a:/b''], macos = []\<rparr> (\<lambda>p. ''.'') ''id''
       \<lparr>config = [(''pandoc'', JStr ''pandoc''), (''xelatex'', JStr ''xelatex'')],
        emitted = 0, PATH = ''/usr/bin'', config_dir = True, config_file = None,
        dict_dir = True\<rparr>))))
     = ''/usr/bin:/a:/b:.:/a:/b''"
  by (simp add: checkSystem_def add_additional_def additional_paths_def delim_def
      add_tool_dir_def get_def other_form_def has_method_def nullish_def assign_key_def)

subsection \<open>Allocation and reading on the heap\<close>

lemma alloc_extends:
  "\<exists>ext. snd (alloc t h) = h @ ext \<and>
         (\<forall>c\<in>set ext. refs_cell c \<subseteq> {length h..<length h + length ext}) \<and>
         refs_val (fst (alloc t h)) \<subseteq> {length h..<length h + length ext}"
  and alloc_list_extends:
  "\<exists>ext. snd (alloc_list ts h) = h @ ext \<and>
         (\<forall>c\<in>set ext. refs_cell c \<subseteq> {length h..<length h + length ext}) \<and>
         (\<forall>v\<in>set (fst (alloc_list ts h)). refs_val v \<subseteq> {length h..<length h + length ext})"
  and alloc_props_extends:
  "\<exists>ext. snd (alloc_props ps h) = h @ ext \<and>
         (\<forall>c\<in>set ext. refs_cell c \<subseteq> {length h..<length h + length ext}) \<and>
         (\<forall>v\<in>set (map snd (fst (alloc_props ps h))). refs_val v \<subseteq> {length h..<length h + length ext})"
proof (induct t h and ts h and ps h rule: alloc_alloc_list_alloc_props.induct)
  case (6 xs h)
  then obtain ext where e: "snd (alloc_list xs h) = h @ ext"
    "\<forall>c\<in>set ext. refs_cell c \<subseteq> {length h..<length h + length ext}"
    "\<forall>v\<in>set (fst (alloc_list xs h)). refs_val v \<subseteq> {length h..<length h + length ext}"
    by blast
  let ?ext = "ext @ [Array (fst (alloc_list xs h))]"
  have "snd (alloc (JArr xs) h) = h @ ?ext" using e(1) by (simp add: case_prod_beta)
  moreover have "\<forall>c\<in>set ?ext. refs_cell c \<subseteq> {length h..<length h + length ?ext}"
    using e(2,3) by (fastforce simp: refs_cell_def)
  moreover have "refs_val (fst (alloc (JArr xs) h)) \<subseteq> {length h..<length h + length ?ext}"
    using e(1) by (simp add: case_prod_beta)
  ultimately show ?case by blast
next
  case (7 ps h)
  then obtain ext where e: "snd (alloc_props ps h) = h @ ext"
    "\<forall>c\<in>set ext. refs_cell c \<subseteq> {length h..<length h + length ext}"
    "\<forall>v\<in>set (map snd (fst (alloc_props ps h))). refs_val v \<subseteq> {length h..<length h + length ext}"
    by blast
  let ?ext = "ext @ [Object (fst (alloc_props ps h))]"
  have "snd (alloc (JObj ps) h) = h @ ?ext" using e(1) by (simp add: case_prod_beta)
  moreover have "\<forall>c\<in>set ?ext. refs_cell c \<subseteq> {length h..<length h + length ?ext}"
    using e(2,3) by (fastforce simp: refs_cell_def)
  moreover have "refs_val (fst (alloc (JObj ps) h)) \<subseteq> {length h..<length h + length ?ext}"
    using e(1) by (simp add: case_prod_beta)
  ultimately show ?case by blast
next
  case (9 x xs h)
  obtain v h1 where a: "alloc x h = (v, h1)" by (cases "alloc x h") auto
  from 9(1) a obtain e1 where e1: "h1 = h @ e1"
    "\<forall>c\<in>set e1. refs_cell c \<subseteq> {length h..<length h + length e1}"
    "refs_val v \<subseteq> {length h..<length h + length e1}"
    by auto
  obtain vs h2 where b: "alloc_list xs h1 = (vs, h2)" by (cases "alloc_list xs h1") auto
  from 9(2)[OF a[symmetric]] b obtain e2 where e2: "h2 = h1 @ e2"
    "\<forall>c\<in>set e2. refs_cell c \<subseteq> {length h1..<length h1 + length e2}"
    "\<forall>v\<in>set vs. refs_val v \<subseteq> {length h1..<length h1 + length e2}"
    by auto
  let ?ext = "e1 @ e2"
  have "snd (alloc_list (x # xs) h) = h @ ?ext" using a b e1(1) e2(1) by simp
  moreover have "\<forall>c\<in>set ?ext. refs_cell c \<subseteq> {length h..<length h + length ?ext}"
    using e1(1,2) e2(2) by fastforce
  moreover have "\<forall>v\<in>set (fst (alloc_list (x # xs) h)). refs_val v \<subseteq> {length h..<length h + length ?ext}"
    using a b e1(1,3) e2(3) by fastforce
  ultimately show ?case by blast
next
  case (11 k x ps h)
  obtain v h1 where a: "alloc x h = (v, h1)" by (cases "alloc x h") auto
  from 11(1) a obtain e1 where e1: "h1 = h @ e1"
    "\<forall>c\<in>set e1. refs_cell c \<subseteq> {length h..<length h + length e1}"
    "refs_val v \<subseteq> {length h..<length h + length e1}"
    by auto
  obtain fs h2 where b: "alloc_props ps h1 = (fs, h2)" by (cases "alloc_props ps h1") auto
  from 11(2)[OF a[symmetric]] b obtain e2 where e2: "h2 = h1 @ e2"
    "\<forall>c\<in>set e2. refs_cell c \<subseteq> {length h1..<length h1 + length e2}"
    "\<forall>v\<in>set (map snd fs). refs_val v \<subseteq> {length h1..<length h1 + length e2}"
    by auto
  let ?ext = "e1 @ e2"
  have "snd (alloc_props ((k, x) # ps) h) = h @ ?ext" using a b e1(1) e2(1) by simp
  moreover have "\<forall>c\<in>set ?ext. refs_cell c \<subseteq> {length h..<length h + length ?ext}"
    using e1(1,2) e2(2) by fastforce
  moreover have "\<forall>v\<in>set (map snd (fst (alloc_props ((k, x) # ps) h))). refs_val v \<subseteq> {length h..<length h + length ?ext}"
    using a b e1(1,3) e2(3) by fastforce
  ultimately show ?case by blast
qed auto

lemma reach_fresh:
  assumes "h' = h @ ext"
    and "\<forall>c\<in>set ext. refs_cell c \<subseteq> {length h..<length h'}"
    and "refs_val v \<subseteq> {length h..<length h'}"
  shows "reach h' v \<subseteq> {length h..<length h'}"
proof
  fix a assume "a \<in> reach h' v"
  then show "a \<in> {length h..<length h'}"
  proof (induction rule: reach.induct)
    case (start a)
    with assms(3) show ?case by blast
  next
    case (step a b)
    then have "h' ! a = ext ! (a - length h)" "a - length h < length ext"
      using assms(1) by (auto simp: nth_append)
    then have "h' ! a \<in> set ext" by simp
    with assms(2) step.hyps(3) show ?case by blast
  qed
qed

lemma take_same:
  assumes "take (length h) h2 = h"
  shows "length h \<le> length h2" and "a < length h \<Longrightarrow> h2 ! a = h ! a"
proof -
  from assms have "length (take (length h) h2) = length h" by simp
  then show "length h \<le> length h2" by simp
  show "a < length h \<Longrightarrow> h2 ! a = h ! a"
    using assms by (metis nth_take)
qed

lemma cell_prop_refs: "cell_prop c k = Some w \<Longrightarrow> refs_val w \<subseteq> refs_cell c"
proof (cases c)
  case (Object ps)
  assume "cell_prop c k = Some w"
  with Object have "(k, w) \<in> set ps" by (auto dest: map_of_SomeD)
  then have "w \<in> set (vals_of c)" using Object by force
  then show ?thesis by (auto simp: refs_cell_def)
next
  case (Array xs)
  assume "cell_prop c k = Some w"
  with Array have "w \<in> set xs \<or> refs_val w = {}"
    by (auto split: if_splits option.splits)
  then show ?thesis using Array by (auto simp: refs_cell_def)
qed

lemma heap_prop_closed:
  assumes "closed h" and "heap_prop h v k = Some w"
  shows "refs_val w \<subseteq> {..<length h}"
proof (cases v)
  case (HRef a)
  with assms(2) have a: "a < length h" and c: "cell_prop (h ! a) k = Some w"
    by (auto split: if_splits)
  from a assms(1) have "refs_cell (h ! a) \<subseteq> {..<length h}" by (auto simp: closed_def)
  with cell_prop_refs[OF c] show ?thesis by blast
next
  case (HStr s)
  with assms(2) show ?thesis by (auto split: if_splits option.splits)
qed (use assms(2) in auto)

lemma heap_prop_frame:
  assumes "take (length h) h2 = h" and "refs_val v \<subseteq> {..<length h}"
  shows "heap_prop h2 v k = heap_prop h v k"
proof (cases v)
  case (HRef a)
  with assms(2) have a: "a < length h" by simp
  with take_same[OF assms(1)] have "a < length h2" "h2 ! a = h ! a" by auto
  with a HRef show ?thesis by simp
qed simp_all

lemma heap_has_method_frame:
  assumes "take (length h) h2 = h" and "refs_val v \<subseteq> {..<length h}"
  shows "heap_has_method h2 v = heap_has_method h v"
  using heap_prop_frame[OF assms] by (simp add: heap_has_method_def)

lemma heap_get_nested_frame:
  assumes "closed h" and "take (length h) h2 = h"
  shows "refs_val v \<subseteq> {..<length h} \<Longrightarrow> heap_get_nested h2 v path = heap_get_nested h v path"
proof (induction path arbitrary: v)
  case Nil
  then show ?case by simp
next
  case (Cons arg path)
  have p: "heap_prop h2 v arg = heap_prop h v arg"
    using heap_prop_frame[OF assms(2) Cons.prems] .
  have m: "heap_has_method h2 v = heap_has_method h v"
    using heap_has_method_frame[OF assms(2) Cons.prems] .
  show ?case
  proof (cases "heap_prop h v arg")
    case None
    with p m show ?thesis by simp
  next
    case (Some w)
    from heap_prop_closed[OF assms(1) Some] Cons.IH[of w] p m Some show ?thesis by simp
  qed
qed

lemma heap_get_nested_closed:
  assumes "closed h"
  shows "refs_val v \<subseteq> {..<length h} \<Longrightarrow> heap_get_nested h v path = Inr w \<Longrightarrow>
         refs_val w \<subseteq> {..<length h}"
proof (induction path arbitrary: v)
  case Nil
  then show ?case by simp
next
  case (Cons arg path)
  show ?case
  proof (cases "heap_prop h v arg")
    case None
    with Cons.prems show ?thesis by (auto split: if_splits)
  next
    case (Some u)
    from Cons.prems(2) Some have "heap_get_nested h u path = Inr w" by (auto split: if_splits)
    with Cons.IH[OF heap_prop_closed[OF assms Some]] show ?thesis by simp
  qed
qed

lemma heap_get_frame:
  assumes "closed h" and "take (length h) h2 = h" and "root < length h"
  shows "heap_get h2 root k = heap_get h root k"
proof -
  have r: "refs_val (HRef root) \<subseteq> {..<length h}" using assms(3) by simp
  show ?thesis
    unfolding heap_get_def
    using heap_get_nested_frame[OF assms(1,2) r] heap_prop_frame[OF assms(2) r]
      heap_has_method_frame[OF assms(2) r]
    by simp
qed

lemma heap_get_closed:
  assumes "closed h" and "root < length h" and "heap_get h root k = Inr w"
  shows "refs_val w \<subseteq> {..<length h}"
proof -
  have r: "refs_val (HRef root) \<subseteq> {..<length h}" using assms(2) by simp
  show ?thesis
  proof (cases "k = []")
    case True
    with assms(3) r show ?thesis by (simp add: heap_get_def)
  next
    case False
    show ?thesis
    proof (cases "indexOf k CHR ''.'' > 0")
      case True
      with False assms(3) heap_get_nested_closed[OF assms(1) r] show ?thesis
        by (simp add: heap_get_def)
    next
      case nd: False
      show ?thesis
      proof (cases "heap_prop h (HRef root) k")
        case None
        with False nd assms(3) show ?thesis by (auto simp: heap_get_def split: if_splits)
      next
        case (Some u)
        with False nd assms(3) have "u = w" by (auto simp: heap_get_def split: if_splits)
        with heap_prop_closed[OF assms(1) Some] show ?thesis by simp
      qed
    qed
  qed
qed

lemma freeze_frame:
  "closed h \<Longrightarrow> take (length h) h2 = h \<Longrightarrow> refs_val v \<subseteq> {..<length h} \<Longrightarrow>
     freeze h2 st v = freeze h st v"
  and freeze_list_frame:
  "closed h \<Longrightarrow> take (length h) h2 = h \<Longrightarrow> \<forall>v\<in>set vs. refs_val v \<subseteq> {..<length h} \<Longrightarrow>
     freeze_list h2 st vs = freeze_list h st vs"
  and freeze_props_frame:
  "closed h \<Longrightarrow> take (length h) h2 = h \<Longrightarrow> \<forall>v\<in>set (map snd ps). refs_val v \<subseteq> {..<length h} \<Longrightarrow>
     freeze_props h2 st ps = freeze_props h st ps"
proof (induct h st v and h st vs and h st ps rule: freeze_freeze_list_freeze_props.induct)
  case (5 h st a)
  from 5(5) have a: "a < length h" by simp
  with take_same[OF 5(4)] have a2: "a < length h2" and eq: "h2 ! a = h ! a" by auto
  show ?case
  proof (cases "a \<in> set st")
    case True
    then show ?thesis by simp
  next
    case False
    have na: "\<not> (a \<in> set st \<or> \<not> a < length h)" using False a by simp
    from a 5(3) have rc: "refs_cell (h ! a) \<subseteq> {..<length h}" by (auto simp: closed_def)
    show ?thesis
    proof (cases "h ! a")
      case (Object ps)
      with rc have "\<forall>v\<in>set (map snd ps). refs_val v \<subseteq> {..<length h}"
        by (auto simp: refs_cell_def)
      from 5(1)[OF na Object 5(3,4) this] False a a2 eq Object show ?thesis by simp
    next
      case (Array xs)
      with rc have "\<forall>v\<in>set xs. refs_val v \<subseteq> {..<length h}"
        by (auto simp: refs_cell_def)
      from 5(2)[OF na Array 5(3,4) this] False a a2 eq Array show ?thesis by simp
    qed
  qed
next
  case (7 h st v vs)
  from 7(5) have v: "refs_val v \<subseteq> {..<length h}" and vs: "\<forall>v\<in>set vs. refs_val v \<subseteq> {..<length h}"
    by auto
  have e1: "freeze h2 st v = freeze h st v" using 7(1)[OF 7(3,4) v] .
  show ?case
  proof (cases "freeze h st v")
    case (Inl e)
    with e1 show ?thesis by simp
  next
    case (Inr t)
    from 7(2)[OF Inr 7(3,4) vs] e1 Inr show ?thesis by simp
  qed
next
  case (9 h st k v ps)
  from 9(5) have v: "refs_val v \<subseteq> {..<length h}"
    and ps: "\<forall>v\<in>set (map snd ps). refs_val v \<subseteq> {..<length h}"
    by auto
  have e1: "freeze h2 st v = freeze h st v" using 9(1)[OF 9(3,4) v] .
  show ?case
  proof (cases "freeze h st v")
    case (Inl e)
    with e1 show ?thesis by simp
  next
    case (Inr t)
    from 9(2)[OF Inr 9(3,4) ps] e1 Inr show ?thesis by simp
  qed
qed simp_all

lemma freeze_no_hole:
  "\<forall>t. freeze h st v = Inr t \<longrightarrow> no_hole t"
  and freeze_list_no_hole:
  "\<forall>ts. freeze_list h st vs = Inr ts \<longrightarrow> (\<forall>x\<in>set ts. no_hole x)"
  and freeze_props_no_hole:
  "\<forall>qs. freeze_props h st ps = Inr qs \<longrightarrow> (\<forall>x\<in>snd ` set qs. no_hole x)"
proof (induct h st v and h st vs and h st ps rule: freeze_freeze_list_freeze_props.induct)
  case (5 h st a)
  then show ?case
    by (auto split: if_splits cell.splits sum.splits)
next
  case (7 h st v vs)
  then show ?case by (auto split: sum.splits)
next
  case (9 h st k v ps)
  then show ?case by (fastforce split: sum.splits)
qed auto

lemma alloc_closed:
  assumes "closed h"
  shows "closed (snd (alloc t h))"
proof -
  from alloc_extends[of t h] obtain ext where e: "snd (alloc t h) = h @ ext"
    "\<forall>c\<in>set ext. refs_cell c \<subseteq> {length h..<length h + length ext}"
    by blast
  show ?thesis
    unfolding closed_def e(1) using assms e(2) by (fastforce simp: closed_def)
qed

lemma alloc_list_closed:
  assumes "closed h"
  shows "closed (snd (alloc_list ts h))"
proof -
  from alloc_list_extends[of ts h] obtain ext where e: "snd (alloc_list ts h) = h @ ext"
    "\<forall>c\<in>set ext. refs_cell c \<subseteq> {length h..<length h + length ext}"
    by blast
  show ?thesis
    unfolding closed_def e(1) using assms e(2) by (fastforce simp: closed_def)
qed

lemma alloc_props_closed:
  assumes "closed h"
  shows "closed (snd (alloc_props ps h))"
proof -
  from alloc_props_extends[of ps h] obtain ext where e: "snd (alloc_props ps h) = h @ ext"
    "\<forall>c\<in>set ext. refs_cell c \<subseteq> {length h..<length h + length ext}"
    by blast
  show ?thesis
    unfolding closed_def e(1) using assms e(2) by (fastforce simp: closed_def)
qed

lemma alloc_length: "length h \<le> length (snd (alloc t h))"
  using alloc_extends[of t h] by auto

lemma alloc_list_length: "length h \<le> length (snd (alloc_list ts h))"
  using alloc_list_extends[of ts h] by auto

lemma alloc_props_length: "length h \<le> length (snd (alloc_props ps h))"
  using alloc_props_extends[of ps h] by auto

lemma alloc_take: "take (length h) (snd (alloc t h)) = h"
  using alloc_extends[of t h] by auto

lemma alloc_list_take: "take (length h) (snd (alloc_list ts h)) = h"
  using alloc_list_extends[of ts h] by auto

lemma alloc_props_take: "take (length h) (snd (alloc_props ps h)) = h"
  using alloc_props_extends[of ps h] by auto

lemma alloc_refs: "refs_val (fst (alloc t h)) \<subseteq> {..<length (snd (alloc t h))}"
  using alloc_extends[of t h] by auto

lemma alloc_list_refs:
  "\<forall>v\<in>set (fst (alloc_list ts h)). refs_val v \<subseteq> {..<length (snd (alloc_list ts h))}"
  using alloc_list_extends[of ts h] by fastforce

lemma alloc_props_refs:
  "\<forall>v\<in>set (map snd (fst (alloc_props ps h))). refs_val v \<subseteq> {..<length (snd (alloc_props ps h))}"
  using alloc_props_extends[of ps h] by fastforce

lemma freeze_alloc:
  "closed h \<Longrightarrow> no_hole t \<Longrightarrow>
   \<forall>b\<in>set st. b < length h \<or> length (snd (alloc t h)) \<le> b \<Longrightarrow>
   freeze (snd (alloc t h)) st (fst (alloc t h)) = Inr t"
  and freeze_alloc_list:
  "closed h \<Longrightarrow> \<forall>x\<in>set ts. no_hole x \<Longrightarrow>
   \<forall>b\<in>set st. b < length h \<or> length (snd (alloc_list ts h)) \<le> b \<Longrightarrow>
   freeze_list (snd (alloc_list ts h)) st (fst (alloc_list ts h)) = Inr ts"
  and freeze_alloc_props:
  "closed h \<Longrightarrow> \<forall>x\<in>snd ` set ps. no_hole x \<Longrightarrow>
   \<forall>b\<in>set st. b < length h \<or> length (snd (alloc_props ps h)) \<le> b \<Longrightarrow>
   freeze_props (snd (alloc_props ps h)) st (fst (alloc_props ps h)) = Inr ps"
proof (induct t h and ts h and ps h arbitrary: st and st and st
       rule: alloc_alloc_list_alloc_props.induct)
  case (6 xs h)
  let ?h1 = "snd (alloc_list xs h)" and ?vs = "fst (alloc_list xs h)"
  let ?H = "?h1 @ [Array ?vs]"
  have al: "alloc (JArr xs) h = (HRef (length ?h1), ?H)" by (simp add: case_prod_beta)
  have c1: "closed ?h1" by (rule alloc_list_closed[OF 6(2)])
  have tk: "take (length ?h1) ?H = ?h1" by simp
  from 6(4) have st0: "\<forall>b\<in>set st. b < length h \<or> Suc (length ?h1) \<le> b"
    by (simp add: case_prod_beta)
  have nst: "length ?h1 \<notin> set st"
    using st0 alloc_list_length[of h xs] by fastforce
  have st': "\<forall>b\<in>set (length ?h1 # st). b < length h \<or> length ?h1 \<le> b"
    using st0 by auto
  have "freeze_list ?H (length ?h1 # st) ?vs = freeze_list ?h1 (length ?h1 # st) ?vs"
    by (rule freeze_list_frame[OF c1 tk alloc_list_refs])
  also have "\<dots> = Inr xs"
    using 6(1)[OF 6(2) _ st'] 6(3) by simp
  finally show ?case using nst unfolding al by simp
next
  case (7 ps h)
  let ?h1 = "snd (alloc_props ps h)" and ?fs = "fst (alloc_props ps h)"
  let ?H = "?h1 @ [Object ?fs]"
  have al: "alloc (JObj ps) h = (HRef (length ?h1), ?H)" by (simp add: case_prod_beta)
  have c1: "closed ?h1" by (rule alloc_props_closed[OF 7(2)])
  have tk: "take (length ?h1) ?H = ?h1" by simp
  from 7(4) have st0: "\<forall>b\<in>set st. b < length h \<or> Suc (length ?h1) \<le> b"
    by (simp add: case_prod_beta)
  have nst: "length ?h1 \<notin> set st"
    using st0 alloc_props_length[of h ps] by fastforce
  have st': "\<forall>b\<in>set (length ?h1 # st). b < length h \<or> length ?h1 \<le> b"
    using st0 by auto
  have "freeze_props ?H (length ?h1 # st) ?fs = freeze_props ?h1 (length ?h1 # st) ?fs"
    by (rule freeze_props_frame[OF c1 tk alloc_props_refs])
  also have "\<dots> = Inr ps"
    using 7(1)[OF 7(2) _ st'] 7(3) by simp
  finally show ?case using nst unfolding al by simp
next
  case (9 x xs h)
  let ?v = "fst (alloc x h)" and ?h1 = "snd (alloc x h)"
  let ?vs = "fst (alloc_list xs ?h1)" and ?h2 = "snd (alloc_list xs ?h1)"
  have al: "alloc_list (x # xs) h = (?v # ?vs, ?h2)" by (simp add: case_prod_beta)
  have c1: "closed ?h1" by (rule alloc_closed[OF 9(3)])
  have l12: "length ?h1 \<le> length ?h2" by (rule alloc_list_length)
  have l01: "length h \<le> length ?h1" by (rule alloc_length)
  from 9(5) have st0: "\<forall>b\<in>set st. b < length h \<or> length ?h2 \<le> b"
    by (simp add: case_prod_beta)
  have st1: "\<forall>b\<in>set st. b < length h \<or> length ?h1 \<le> b"
    using st0 l12 by fastforce
  have st2: "\<forall>b\<in>set st. b < length ?h1 \<or> length ?h2 \<le> b"
    using st0 l01 by fastforce
  have "freeze ?h2 st ?v = freeze ?h1 st ?v"
    by (rule freeze_frame[OF c1 alloc_list_take alloc_refs])
  also have "\<dots> = Inr x" using 9(1)[OF 9(3) _ st1] 9(4) by simp
  finally have f1: "freeze ?h2 st ?v = Inr x" .
  have f2: "freeze_list ?h2 st ?vs = Inr xs"
    using 9(2)[OF prod.collapse c1 _ st2] 9(4) by simp
  from f1 f2 show ?case unfolding al by simp
next
  case (11 k x ps h)
  let ?v = "fst (alloc x h)" and ?h1 = "snd (alloc x h)"
  let ?fs = "fst (alloc_props ps ?h1)" and ?h2 = "snd (alloc_props ps ?h1)"
  have al: "alloc_props ((k, x) # ps) h = ((k, ?v) # ?fs, ?h2)" by (simp add: case_prod_beta)
  have c1: "closed ?h1" by (rule alloc_closed[OF 11(3)])
  have l12: "length ?h1 \<le> length ?h2" by (rule alloc_props_length)
  have l01: "length h \<le> length ?h1" by (rule alloc_length)
  from 11(5) have st0: "\<forall>b\<in>set st. b < length h \<or> length ?h2 \<le> b"
    by (simp add: case_prod_beta)
  have st1: "\<forall>b\<in>set st. b < length h \<or> length ?h1 \<le> b"
    using st0 l12 by fastforce
  have st2: "\<forall>b\<in>set st. b < length ?h1 \<or> length ?h2 \<le> b"
    using st0 l01 by fastforce
  have "freeze ?h2 st ?v = freeze ?h1 st ?v"
    by (rule freeze_frame[OF c1 alloc_props_take alloc_refs])
  also have "\<dots> = Inr x" using 11(1)[OF 11(3) _ st1] 11(4) by simp
  finally have f1: "freeze ?h2 st ?v = Inr x" .
  have f2: "freeze_props ?h2 st ?fs = Inr ps"
    using 11(2)[OF prod.collapse c1 _ st2] 11(4) by simp
  from f1 f2 show ?case unfolding al by simp
qed auto


subsection \<open>The heap and the tree\<close>

text \<open>
  What \<open>heap_get\<close> finds on a heap is, read as a tree, what \<open>get\<close> finds in the
  tree the heap holds below the configuration.
\<close>

lemma freeze_smaller_stack:
  "\<forall>t st'. freeze h st v = Inr t \<longrightarrow> set st' \<subseteq> set st \<longrightarrow> freeze h st' v = Inr t"
  and freeze_list_smaller_stack:
  "\<forall>ts st'. freeze_list h st vs = Inr ts \<longrightarrow> set st' \<subseteq> set st \<longrightarrow> freeze_list h st' vs = Inr ts"
  and freeze_props_smaller_stack:
  "\<forall>qs st'. freeze_props h st ps = Inr qs \<longrightarrow> set st' \<subseteq> set st \<longrightarrow> freeze_props h st' ps = Inr qs"
proof (induct h st v and h st vs and h st ps rule: freeze_freeze_list_freeze_props.induct)
  case (5 h st a)
  show ?case
  proof (intro allI impI)
    fix t st'
    assume f: "freeze h st (HRef a) = Inr t" and sub: "set st' \<subseteq> set st"
    from f have na: "\<not> (a \<in> set st \<or> \<not> a < length h)" by (auto split: if_splits)
    with sub have na': "a \<notin> set st'" "a < length h" by auto
    have sub': "set (a # st') \<subseteq> set (a # st)" using sub by auto
    show "freeze h st' (HRef a) = Inr t"
    proof (cases "h ! a")
      case (Object ps)
      with f na obtain qs where q: "freeze_props h (a # st) ps = Inr qs" "t = JObj qs"
        by (auto split: sum.splits)
      from 5(1)[OF na Object] q(1) sub' have "freeze_props h (a # st') ps = Inr qs" by blast
      with na' Object q(2) show ?thesis by simp
    next
      case (Array xs)
      with f na obtain ts where q: "freeze_list h (a # st) xs = Inr ts" "t = JArr ts"
        by (auto split: sum.splits)
      from 5(2)[OF na Array] q(1) sub' have "freeze_list h (a # st') xs = Inr ts" by blast
      with na' Array q(2) show ?thesis by simp
    qed
  qed
next
  case (7 h st v vs)
  show ?case
  proof (intro allI impI)
    fix ts st'
    assume f: "freeze_list h st (v # vs) = Inr ts" and sub: "set st' \<subseteq> set st"
    from f obtain t ts' where p: "freeze h st v = Inr t" "freeze_list h st vs = Inr ts'"
      "ts = t # ts'"
      by (auto split: sum.splits)
    from 7(1) p(1) sub have "freeze h st' v = Inr t" by blast
    moreover from 7(2)[OF p(1)] p(2) sub have "freeze_list h st' vs = Inr ts'" by blast
    ultimately show "freeze_list h st' (v # vs) = Inr ts" using p(3) by simp
  qed
next
  case (9 h st k v ps)
  show ?case
  proof (intro allI impI)
    fix qs st'
    assume f: "freeze_props h st ((k, v) # ps) = Inr qs" and sub: "set st' \<subseteq> set st"
    from f obtain t qs' where p: "freeze h st v = Inr t" "freeze_props h st ps = Inr qs'"
      "qs = (k, t) # qs'"
      by (auto split: sum.splits)
    from 9(1) p(1) sub have "freeze h st' v = Inr t" by blast
    moreover from 9(2)[OF p(1)] p(2) sub have "freeze_props h st' ps = Inr qs'" by blast
    ultimately show "freeze_props h st' ((k, v) # ps) = Inr qs" using p(3) by simp
  qed
qed simp_all

lemma freeze_list_nth:
  "freeze_list h st vs = Inr ts \<Longrightarrow>
   length ts = length vs \<and> (\<forall>i<length vs. freeze h st (vs ! i) = Inr (ts ! i))"
proof (induction vs arbitrary: ts)
  case Nil
  then show ?case by simp
next
  case (Cons v vs)
  from Cons.prems obtain t ts' where p: "freeze h st v = Inr t" "freeze_list h st vs = Inr ts'"
    "ts = t # ts'"
    by (auto split: sum.splits)
  from Cons.IH[OF p(2)] p(1,3) show ?case by (auto simp: nth_Cons split: nat.splits)
qed

lemma freeze_props_map_of:
  "freeze_props h st ps = Inr qs \<Longrightarrow>
   (case map_of ps k of
      None \<Rightarrow> map_of qs k = None
    | Some w \<Rightarrow> (\<exists>tw. map_of qs k = Some tw \<and> freeze h st w = Inr tw))"
proof (induction ps arbitrary: qs)
  case Nil
  then show ?case by simp
next
  case (Cons p ps)
  obtain k' v where p: "p = (k', v)" by (cases p)
  from Cons.prems obtain t qs' where q: "freeze h st v = Inr t" "freeze_props h st ps = Inr qs'"
    "qs = (k', t) # qs'"
    unfolding p by (auto split: sum.splits)
  from Cons.IH[OF q(2)] q(1,3) show ?case unfolding p by (auto split: option.splits)
qed

lemma freeze_empty_stack: "freeze h st v = Inr t \<Longrightarrow> freeze h [] v = Inr t"
  using freeze_smaller_stack[of h st v] by (metis empty_set empty_subsetI)

lemma heap_prop_own_prop:
  assumes "freeze h [] v = Inr t"
  shows "case heap_prop h v k of
           None \<Rightarrow> own_prop t k = None
         | Some w \<Rightarrow> (\<exists>tw. own_prop t k = Some tw \<and> freeze h [] w = Inr tw)"
proof (cases v)
  case (HRef a)
  with assms have a: "a < length h" by (auto split: if_splits)
  show ?thesis
  proof (cases "h ! a")
    case (Object ps)
    with assms HRef a obtain qs where q: "freeze_props h [a] ps = Inr qs" "t = JObj qs"
      by (auto split: sum.splits)
    have "case map_of ps k of
            None \<Rightarrow> map_of qs k = None
          | Some w \<Rightarrow> (\<exists>tw. map_of qs k = Some tw \<and> freeze h [] w = Inr tw)"
    proof (cases "map_of ps k")
      case None
      with freeze_props_map_of[OF q(1), of k] show ?thesis by simp
    next
      case (Some w)
      with freeze_props_map_of[OF q(1), of k] obtain tw
        where "map_of qs k = Some tw" "freeze h [a] w = Inr tw" by auto
      with Some freeze_empty_stack[of h "[a]" w tw] show ?thesis by simp
    qed
    with HRef a Object q(2) show ?thesis by (auto split: option.splits)
  next
    case (Array xs)
    with assms HRef a obtain ts where q: "freeze_list h [a] xs = Inr ts" "t = JArr ts"
      by (auto split: sum.splits)
    from freeze_list_nth[OF q(1)] have len: "length ts = length xs"
      and nth: "\<forall>i<length xs. freeze h [a] (xs ! i) = Inr (ts ! i)" by auto
    have nh: "\<forall>i<length xs. ts ! i \<noteq> JHole"
    proof (intro allI impI)
      fix i assume "i < length xs"
      with nth freeze_no_hole[of h "[a]" "xs ! i"] have "no_hole (ts ! i)" by auto
      then show "ts ! i \<noteq> JHole" by auto
    qed
    have down: "\<forall>i<length xs. freeze h [] (xs ! i) = Inr (ts ! i)"
      using nth freeze_empty_stack[of h "[a]"] by blast
    have hp: "heap_prop h v k = cell_prop (Array xs) k" using HRef a Array by simp
    show ?thesis
    proof (cases "k = ''length''")
      case True
      with hp q(2) len show ?thesis by simp
    next
      case nl: False
      show ?thesis
      proof (cases "array_index k")
        case None
        with hp q(2) nl show ?thesis by simp
      next
        case (Some i)
        show ?thesis
        proof (cases "i < length xs")
          case True
          with hp q(2) nl Some len nh down show ?thesis by simp
        next
          case False
          with hp q(2) nl Some len show ?thesis by simp
        qed
      qed
    qed
  qed
next
  case (HStr s)
  with assms show ?thesis by (auto split: option.splits)
qed (use assms in auto)

lemma freeze_null: "freeze h st v = Inr t \<Longrightarrow> nullish t = (v = HNull)"
  by (cases v) (auto simp: has_method_def nullish_def split: if_splits cell.splits sum.splits)

lemma heap_has_method_has_method:
  assumes "freeze h [] v = Inr t"
  shows "has_method t = heap_has_method h v"
  using heap_prop_own_prop[OF assms, of "''hasOwnProperty''"] freeze_null[OF assms]
  by (auto simp: has_method_def heap_has_method_def split: option.splits)

lemma heap_get_nested_get_nested:
  "freeze h [] v = Inr t \<Longrightarrow>
   (case heap_get_nested h v path of
      Inl e \<Rightarrow> get_nested t path = Inl e
    | Inr w \<Rightarrow> (\<exists>tw. get_nested t path = Inr tw \<and> freeze h [] w = Inr tw))"
proof (induction path arbitrary: v t)
  case Nil
  then show ?case by simp
next
  case (Cons arg path)
  note n = heap_has_method_has_method[OF Cons.prems]
  show ?case
  proof (cases "heap_has_method h v")
    case False
    with n show ?thesis by simp
  next
    case True
    show ?thesis
    proof (cases "heap_prop h v arg")
      case None
      with heap_prop_own_prop[OF Cons.prems, of arg] True n show ?thesis by simp
    next
      case (Some w)
      with heap_prop_own_prop[OF Cons.prems, of arg] obtain tw
        where tw: "own_prop t arg = Some tw" "freeze h [] w = Inr tw" by auto
      from Cons.IH[OF tw(2)] Some tw(1) True n show ?thesis
        by (simp split: sum.splits)
    qed
  qed
qed

lemma heap_get_is_get:
  assumes "freeze h [] (HRef root) = Inr (JObj (config s))"
  shows "case heap_get h root attr of
           Inl e \<Rightarrow> get attr s = Inl e
         | Inr w \<Rightarrow> (\<exists>tw. get attr s = Inr tw \<and> freeze h [] w = Inr tw)"
proof (cases "attr = []")
  case True
  with assms show ?thesis by (simp add: heap_get_def get_def)
next
  case False
  show ?thesis
  proof (cases "indexOf attr CHR ''.'' > 0")
    case True
    with False heap_get_nested_get_nested[OF assms, of "split_str CHR ''.'' attr"]
    show ?thesis by (simp add: heap_get_def get_def split: sum.splits)
  next
    case nd: False
    from heap_prop_own_prop[OF assms, of attr] heap_has_method_has_method[OF assms]
      False nd show ?thesis
      by (auto simp: heap_get_def get_def split: option.splits)
  qed
qed


subsection \<open>The accessor for other modules\<close>

text \<open>
  Claim C4. Let the heap be closed and \<^verbatim>\<open>global.config.get(key)\<close> return \<open>v\<close>, the
  heap then being \<open>h'\<close>. The cells of the old heap are as they were; every cell one
  gets to from \<open>v\<close> is a new one; \<open>v\<close> reads as the same tree as the value inside.
  So whatever a caller writes into a cell of the returned value, the tree below the
  configuration and the result of every \<^verbatim>\<open>get\<close> stay what they were; and so they do on
  any heap that differs from the old one in new cells only, which is where all further
  writes through returned values go.
\<close>

theorem global_get_returns_isolated_copy:
  assumes "closed h" and "root < length h" and "global_get h root key = Inr (v, h')"
  shows "take (length h) h' = h \<and>
         reach h' v \<subseteq> {length h..<length h'} \<and>
         (\<exists>v0. heap_get h root key = Inr v0 \<and> freeze h' [] v = freeze h [] v0) \<and>
         (\<forall>a\<in>reach h' v. \<forall>c.
            freeze (h'[a := c]) [] (HRef root) = freeze h [] (HRef root) \<and>
            (\<forall>k. heap_get (h'[a := c]) root k = heap_get h root k)) \<and>
         (\<forall>h2. take (length h) h2 = h \<longrightarrow>
            freeze h2 [] (HRef root) = freeze h [] (HRef root) \<and>
            (\<forall>k. heap_get h2 root k = heap_get h root k) \<and>
            (\<forall>k w. heap_get h root k = Inr w \<longrightarrow> freeze h2 [] w = freeze h [] w))"
proof -
  from assms(3) obtain v0 t where g: "heap_get h root key = Inr v0"
    and f: "freeze h [] v0 = Inr t" and a: "alloc t h = (v, h')"
    by (auto simp: global_get_def split: sum.splits)
  have v: "v = fst (alloc t h)" and h': "h' = snd (alloc t h)" using a by simp_all
  have tk: "take (length h) h' = h" unfolding h' by (rule alloc_take)
  from alloc_extends[of t h] obtain ext where e: "h' = h @ ext"
    "\<forall>c\<in>set ext. refs_cell c \<subseteq> {length h..<length h'}"
    "refs_val v \<subseteq> {length h..<length h'}"
    unfolding v h' by auto
  have fresh: "reach h' v \<subseteq> {length h..<length h'}" by (rule reach_fresh[OF e])
  have nh: "no_hole t" using freeze_no_hole f by blast
  have copy: "freeze h' [] v = Inr t"
    unfolding v h' by (rule freeze_alloc[OF assms(1) nh]) simp
  have r: "refs_val (HRef root) \<subseteq> {..<length h}" using assms(2) by simp
  have frame: "freeze h2 [] (HRef root) = freeze h [] (HRef root) \<and>
            (\<forall>k. heap_get h2 root k = heap_get h root k) \<and>
            (\<forall>k w. heap_get h root k = Inr w \<longrightarrow> freeze h2 [] w = freeze h [] w)"
    if t2: "take (length h) h2 = h" for h2
    using freeze_frame[OF assms(1) t2 r] heap_get_frame[OF assms(1) t2 assms(2)]
      freeze_frame[OF assms(1) t2 heap_get_closed[OF assms(1,2)]]
    by blast
  have mut: "take (length h) (h'[a := c]) = h" if "a \<in> reach h' v" for a c
  proof -
    from that fresh have "length h \<le> a" by auto
    then show ?thesis using tk by simp
  qed
  from tk fresh g f copy frame mut show ?thesis by (metis (no_types, lifting))
qed

text \<open>
  The theorem at a tree with a nested object \<^verbatim>\<open>window\<close>: the copy is cell 3, and
  replacing it leaves \<^verbatim>\<open>window.x\<close> and the whole tree as they were.
\<close>

theorem global_get_returns_isolated_copy_witness:
  "global_get
     [Object [(''x'', HNum 0), (''y'', HNum 0)], Array [HStr ''/a''],
      Object [(''window'', HRef 0), (''openPaths'', HRef 1), (''lastFile'', HNull)]]
     2 ''window''
   = Inr (HRef 3,
     [Object [(''x'', HNum 0), (''y'', HNum 0)], Array [HStr ''/a''],
      Object [(''window'', HRef 0), (''openPaths'', HRef 1), (''lastFile'', HNull)],
      Object [(''x'', HNum 0), (''y'', HNum 0)]]) \<and>
   heap_get
     ([Object [(''x'', HNum 0), (''y'', HNum 0)], Array [HStr ''/a''],
      Object [(''window'', HRef 0), (''openPaths'', HRef 1), (''lastFile'', HNull)],
      Object [(''x'', HNum 0), (''y'', HNum 0)]][3 := Object [(''x'', HNum 99)]])
     2 ''window.x'' = Inr (HNum 0) \<and>
   freeze
     ([Object [(''x'', HNum 0), (''y'', HNum 0)], Array [HStr ''/a''],
      Object [(''window'', HRef 0), (''openPaths'', HRef 1), (''lastFile'', HNull)],
      Object [(''x'', HNum 0), (''y'', HNum 0)]][3 := Object [(''x'', HNum 99)]])
     [] (HRef 2)
   = Inr (JObj [(''window'', JObj [(''x'', JNum 0), (''y'', JNum 0)]),
                (''openPaths'', JArr [JStr ''/a'']), (''lastFile'', JNull)])"
proof -
  let ?h = "[Object [(''x'', HNum 0), (''y'', HNum 0)], Array [HStr ''/a''],
      Object [(''window'', HRef 0), (''openPaths'', HRef 1), (''lastFile'', HNull)]]"
  let ?h' = "?h @ [Object [(''x'', HNum 0), (''y'', HNum 0)]]"
  have c: "closed ?h" by (simp add: closed_def refs_cell_def)
  have r: "2 < length ?h" by simp
  have g: "global_get ?h 2 ''window'' = Inr (HRef 3, ?h')"
    by (simp add: global_get_def heap_get_def heap_has_method_def)
  have m: "3 \<in> reach ?h' (HRef 3)" by (rule reach.start) simp
  have x: "heap_get ?h 2 ''window.x'' = Inr (HNum 0)"
    by (simp add: heap_get_def heap_has_method_def)
  have f: "freeze ?h [] (HRef 2)
     = Inr (JObj [(''window'', JObj [(''x'', JNum 0), (''y'', JNum 0)]),
                (''openPaths'', JArr [JStr ''/a'']), (''lastFile'', JNull)])"
    by simp
  from global_get_returns_isolated_copy[OF c r g] m
  have "freeze (?h'[3 := Object [(''x'', HNum 99)]]) [] (HRef 2) = freeze ?h [] (HRef 2) \<and>
        heap_get (?h'[3 := Object [(''x'', HNum 99)]]) 2 ''window.x''
          = heap_get ?h 2 ''window.x''"
    by blast
  with g x f show ?thesis by simp
qed

text \<open>
  \<^verbatim>\<open>get\<close> itself, which the accessor wraps, returns the reference that is in the tree:
  a write to the object it returns shows in the next \<^verbatim>\<open>get\<close>.
\<close>

lemma get_returns_live_reference:
  "heap_get
     [Object [(''x'', HNum 0), (''y'', HNum 0)], Array [HStr ''/a''],
      Object [(''window'', HRef 0), (''openPaths'', HRef 1), (''lastFile'', HNull)]]
     2 ''window'' = Inr (HRef 0) \<and>
   heap_get
     ([Object [(''x'', HNum 0), (''y'', HNum 0)], Array [HStr ''/a''],
      Object [(''window'', HRef 0), (''openPaths'', HRef 1), (''lastFile'', HNull)]]
        [0 := Object [(''x'', HNum 99)]])
     2 ''window.x'' = Inr (HNum 99)"
  by (simp add: heap_get_def heap_has_method_def)


end
